theory Spec2Isabelle
  imports Main "HOL-Library.Word"
begin

unbundle bit_operations_syntax

section \<open>The associative array (table.c)\<close>

text \<open>
  \<^verbatim>\<open>size_t\<close> and \<^verbatim>\<open>uint64_t\<close> are 64-bit words. An entry's key is the string its
  \<^verbatim>\<open>const char *\<close> points to (\<open>None\<close> is the NULL pointer of a zeroed entry), its value
  is the \<^verbatim>\<open>void *\<close> the caller handed in (\<open>None\<close> is NULL). The entry array is a list
  of \<open>alloc\<close> entries. Probe positions are natural numbers: they stay below \<open>alloc\<close>,
  and \<open>alloc\<close> is at most the largest table size, far below \<open>2 ^ 63\<close>, so the sums
  \<^verbatim>\<open>h + q\<close> of the source never wrap.
\<close>

datatype table_entry_state_e = TES_UNUSED | TES_SET | TES_DELETED

record 'v table_entry_t =
  key :: "string option"
  val :: "'v option"
  hash :: "64 word"
  state :: table_entry_state_e

record 'v table_t =
  alloc :: "64 word"
  load :: "64 word"
  count :: "64 word"
  entries :: "'v table_entry_t list"
  dup :: bool
  free :: bool
  ci :: bool

definition table_sizes :: "64 word list" where
  "table_sizes = [
    3, 5, 7, 11, 13, 17, 23, 29, 41, 53, 67, 89, 127, 157, 211, 277, 373, 499, 659, 877, 1171,
    1553, 2081, 2767, 3691, 4909, 6547, 8731, 11633, 15511, 20681, 27581, 36749, 49003, 65353,
    87107, 116141, 154871, 206477, 275299, 367069, 489427, 652559, 870083, 1160111, 1546799,
    2062391, 2749847, 3666461, 4888619, 6518173, 8690917, 11587841, 15450437, 20600597,
    27467443, 36623261, 48831017, 65107997, 86810681, 115747549, 154330079, 205773427,
    274364561, 365819417, 487759219, 650345651, 867127501, 1156170011, 1541560037, 2055413317,
    2740551103, 3654068141, 4872090871, 6496121063, 8661494753, 11548659701, 15398212901,
    20530950533, 27374600677, 36499467569, 48665956771, 64887942367, 86517256433,
    115356341911, 153808455923, 205077941191, 273437254897, 364583006561, 486110675443,
    648147567293, 864196756231, 1152262341641, 1536349788871, 2048466385123, 2731288513529,
    3641718017983, 4855624023953, 6474165365293, 8632220487029, 11509627316059,
    15346169754719, 20461559672951, 27282079563967, 36376106085223, 48501474780299,
    64668633040457, 86224844053847, 114966458738489, 153288611651291, 204384815535079,
    272513087380099]"

definition table_sizes_n :: int where
  "table_sizes_n = 112"

text \<open>The zeroed entry \<^verbatim>\<open>calloc\<close> and \<^verbatim>\<open>memset\<close> produce.\<close>

definition zero_entry :: "'v table_entry_t" where
  "zero_entry = \<lparr>key = None, val = None, hash = 0, state = TES_UNUSED\<rparr>"

text \<open>
  \<^verbatim>\<open>table_size\<close>: binary search for the first table size that is not below \<open>sz\<close>;
  \<^verbatim>\<open>(size_t)-1\<close> when there is none.
\<close>

function table_size_search :: "64 word \<Rightarrow> int \<Rightarrow> int \<Rightarrow> int" where
  "table_size_search sz lower upper =
     (if lower \<le> upper then
        (let mid = (lower + upper) div 2 in
         if table_sizes ! nat mid < sz then table_size_search sz (mid + 1) upper
         else table_size_search sz lower (mid - 1))
      else lower)"
  by pat_completeness auto
termination
  by (relation "measure (\<lambda>(sz, lower, upper). nat (upper - lower + 1))") auto

declare table_size_search.simps [simp del]

definition table_size :: "64 word \<Rightarrow> 64 word" where
  "table_size sz =
     (let lower = table_size_search sz 0 (table_sizes_n - 1) in
      if lower \<ge> table_sizes_n then - 1 else table_sizes ! nat lower)"

definition table_load :: "64 word \<Rightarrow> 64 word" where
  "table_load a = drop_bit 1 a + drop_bit 2 a + drop_bit 3 a"

text \<open>
  \<^verbatim>\<open>table_create\<close>. The two booleans are the outcomes of its two \<^verbatim>\<open>calloc\<close> calls
  (the table, then the entry array); \<open>None\<close> is the NULL it returns on failure.
\<close>

definition table_create :: "bool \<Rightarrow> bool \<Rightarrow> 64 word \<Rightarrow> 'v table_t option" where
  "table_create calloc_t_ok calloc_entries_ok ld =
     (if \<not> calloc_t_ok then None
      else
        (let a = ld + (if ld < table_sizes ! nat (table_sizes_n - 1) then ld div 7 + 3 else 0);
             a' = table_size a in
         if a' = - 1 then None
         else if \<not> calloc_entries_ok then None
         else Some \<lparr>alloc = a', load = table_load a', count = 0,
                     entries = replicate (unat a') zero_entry,
                     dup = False, free = False, ci = False\<rparr>))"

text \<open>
  \<^verbatim>\<open>table_hash\<close>: FNV-1a over the bytes of the key, read from the last byte to the
  first. A \<^verbatim>\<open>char\<close> is signed here: \<^verbatim>\<open>hash ^= *--p\<close> sign-extends it on its way to
  \<^verbatim>\<open>uint64_t\<close> (\<open>char_u64\<close>). In the case-insensitive branch the operand is the \<^verbatim>\<open>int\<close>
  that \<^verbatim>\<open>tolower\<close> returns (\<open>tolower_u64\<close>): with glibc in the C locale that is the
  lower-case letter for \<^verbatim>\<open>A\<close> to \<^verbatim>\<open>Z\<close>, the byte as a number from 128 to 254 for the
  negative chars \<open>-128\<close> to \<open>-2\<close>, and \<open>-1\<close> (\<^verbatim>\<open>EOF\<close>) for the char \<open>-1\<close>.
\<close>

definition char_u64 :: "char \<Rightarrow> 64 word" where
  "char_u64 c = scast (of_char c :: 8 word)"

definition tolower :: "char \<Rightarrow> char" where
  "tolower c = (if (65::nat) \<le> of_char c \<and> of_char c \<le> (90::nat)
                then char_of (of_char c + (32::nat)) else c)"

definition tolower_u64 :: "char \<Rightarrow> 64 word" where
  "tolower_u64 c = (if of_char c = (255 :: nat) then - 1 else of_char (tolower c))"

definition table_hash :: "'v table_t \<Rightarrow> string \<Rightarrow> 64 word" where
  "table_hash t k =
     (if ci t then
        foldl (\<lambda>h c. (h XOR tolower_u64 c) * 1099511628211) 14695981039346656037 (rev k)
      else
        foldl (\<lambda>h c. (h XOR char_u64 c) * 1099511628211) 14695981039346656037 (rev k))"

text \<open>\<^verbatim>\<open>strcasecmp(a, b) == 0\<close> and \<^verbatim>\<open>strcmp(a, b) == 0\<close>.\<close>

definition key_equal :: "bool \<Rightarrow> string \<Rightarrow> string \<Rightarrow> bool" where
  "key_equal case_insensitive a b =
     (if case_insensitive then map tolower a = map tolower b else a = b)"

text \<open>
  \<^verbatim>\<open>table_find\<close>: the index of the entry found, or \<open>None\<close> for NULL. The outer
  \<open>option\<close> is \<open>None\<close> when the call has no result: the loop does not end, or
  \<^verbatim>\<open>strcmp\<close> is handed the NULL or freed key of an entry (undefined behaviour in C).
  The loop compares every entry that is not \<^verbatim>\<open>TES_UNUSED\<close>, as the source does.
\<close>

partial_function (option) table_find_loop ::
  "'v table_t \<Rightarrow> string \<Rightarrow> 64 word \<Rightarrow> nat \<Rightarrow> nat \<Rightarrow> nat \<Rightarrow> nat option option" where
  "table_find_loop t k hsh r q h =
     (if state (entries t ! h) \<noteq> TES_UNUSED then
        (if hash (entries t ! h) = hsh then
           (case key (entries t ! h) of
              None \<Rightarrow> None
            | Some s \<Rightarrow>
                if key_equal (ci t) s k then Some (Some h)
                else if (h + q) mod unat (alloc t) = r then Some None
                else table_find_loop t k hsh r q ((h + q) mod unat (alloc t)))
         else if (h + q) mod unat (alloc t) = r then Some None
         else table_find_loop t k hsh r q ((h + q) mod unat (alloc t)))
      else Some None)"

definition table_find :: "'v table_t \<Rightarrow> string \<Rightarrow> 64 word \<Rightarrow> nat option option" where
  "table_find t k hsh =
     table_find_loop t k hsh (unat hsh mod unat (alloc t))
       (unat hsh mod (unat (alloc t) - 2) + 1) (unat hsh mod unat (alloc t))"

definition table_get :: "'v table_t \<Rightarrow> string \<Rightarrow> 'v option option" where
  "table_get t k =
     (case table_find t k (table_hash t k) of
        None \<Rightarrow> None
      | Some None \<Rightarrow> Some None
      | Some (Some i) \<Rightarrow> Some (val (entries t ! i)))"

text \<open>
  \<^verbatim>\<open>table_insert\<close>, in its three loops. \<open>worst_case\<close> is the first \<^verbatim>\<open>while\<close>: it walks
  the probe chain of the new hash over the entries that are set and returns the slot it
  stops at with \<open>len_worst\<close>; it has no result when every slot it visits is set.
\<close>

partial_function (option) worst_case ::
  "'v table_entry_t list \<Rightarrow> nat \<Rightarrow> nat \<Rightarrow> nat \<Rightarrow> nat \<Rightarrow> (nat \<times> nat) option" where
  "worst_case es a q h len_worst =
     (if state (es ! h) = TES_SET then worst_case es a q ((h + q) mod a) (len_worst + 1)
      else Some (h, len_worst))"

text \<open>
  \<open>move_scan\<close> is the inner \<^verbatim>\<open>while (1)\<close>: it follows the probe chain of the entry in the
  way, from \<open>h_move\<close> at \<open>len_move\<close>, and returns the slot that is not set and its
  \<open>len_move\<close>, or \<open>None\<close> when it gives up (\<open>len + len_move \<ge> len_worst - 1\<close>).
\<close>

function move_scan ::
  "'v table_entry_t list \<Rightarrow> nat \<Rightarrow> nat \<Rightarrow> nat \<Rightarrow> nat \<Rightarrow> nat \<Rightarrow> nat \<Rightarrow> (nat \<times> nat) option" where
  "move_scan es a len_worst len q_move h_move len_move =
     (if state (es ! h_move) \<noteq> TES_SET then Some (h_move, len_move)
      else if len + len_move \<ge> len_worst - 1 then None
      else move_scan es a len_worst len q_move ((h_move + q_move) mod a) (len_move + 1))"
  by pat_completeness auto
termination
  by (relation "measure (\<lambda>(es, a, len_worst, len, q_move, h_move, len_move).
        len_worst - 1 - (len + len_move))") auto

declare move_scan.simps [simp del]

text \<open>
  The state of the \<^verbatim>\<open>do ... while\<close> loop: the candidate (\<open>entry_move_old\<close>,
  \<open>entry_move_new\<close>, both NULL at first, and \<open>len_entry_move\<close>, \<^verbatim>\<open>(size_t)-1\<close> at
  first), and the position \<open>h\<close>, \<open>len\<close> on the probe chain of the new hash.
\<close>

record scan_state =
  entry_move_old :: "nat option"
  entry_move_new :: "nat option"
  len_entry_move :: nat
  scan_h :: nat
  scan_len :: nat

definition scan_body ::
  "'v table_entry_t list \<Rightarrow> nat \<Rightarrow> nat \<Rightarrow> nat \<Rightarrow> scan_state \<Rightarrow> scan_state" where
  "scan_body es a q len_worst s =
     (let h = scan_h s; len = scan_len s;
          q_move = unat (hash (es ! h)) mod (a - 2) + 1;
          h_move = (h + q_move) mod a;
          s' = (case move_scan es a len_worst len q_move h_move 1 of
                  Some (h_new, len_move) \<Rightarrow>
                    s\<lparr>entry_move_old := Some h, entry_move_new := Some h_new,
                      len_entry_move := len_move\<rparr>
                | None \<Rightarrow> s)
      in s'\<lparr>scan_h := (h + q) mod a, scan_len := len + 1\<rparr>)"

function relocation_scan ::
  "'v table_entry_t list \<Rightarrow> nat \<Rightarrow> nat \<Rightarrow> nat \<Rightarrow> scan_state \<Rightarrow> scan_state" where
  "relocation_scan es a q len_worst s =
     (let s' = scan_body es a q len_worst s in
      if scan_len s' < len_worst - 1 \<and> scan_len s' < len_entry_move s'
      then relocation_scan es a q len_worst s' else s')"
  by pat_completeness auto
termination
proof (relation "measure (\<lambda>(es, a, q, len_worst, s). len_worst - scan_len s)")
  fix es :: "'v table_entry_t list" and a q len_worst :: nat and s s' :: scan_state
  assume s': "s' = scan_body es a q len_worst s"
    and go: "scan_len s' < len_worst - 1 \<and> scan_len s' < len_entry_move s'"
  have "scan_len s' = scan_len s + 1"
    unfolding s' scan_body_def Let_def by (simp split: option.split prod.split)
  with go show "((es, a, q, len_worst, s'), (es, a, q, len_worst, s))
      \<in> measure (\<lambda>(es, a, q, len_worst, s). len_worst - scan_len s)"
    by (simp, arith)
qed simp

declare relocation_scan.simps [simp del]

text \<open>
  \<^verbatim>\<open>table_insert\<close> returns the index of the entry the caller fills, with the table
  (a relocation copies one entry). No result when \<open>worst_case\<close> has none.
\<close>

definition table_insert :: "'v table_t \<Rightarrow> 64 word \<Rightarrow> (nat \<times> 'v table_t) option" where
  "table_insert t hsh =
     (let a = unat (alloc t);
          h = unat hsh mod a;
          q = unat hsh mod (a - 2) + 1 in
      case worst_case (entries t) a q h 1 of
        None \<Rightarrow> None
      | Some (h_worst, len_worst) \<Rightarrow>
          if len_worst \<le> 2 then Some (h_worst, t)
          else
            (let s = relocation_scan (entries t) a q len_worst
                       \<lparr>entry_move_old = None, entry_move_new = None,
                        len_entry_move = 2 ^ 64 - 1, scan_h = h, scan_len = 1\<rparr> in
             case (entry_move_old s, entry_move_new s) of
               (Some old, Some new) \<Rightarrow>
                 Some (old, t\<lparr>entries := (entries t)[new := entries t ! old]\<rparr>)
             | _ \<Rightarrow> Some ((scan_h s + q) mod a, t)))"

text \<open>
  For the statements about the scan. \<open>chain_pos\<close> is the slot at position \<open>len\<close>
  (counted from 1) on the probe chain that starts at \<open>h\<close> with step \<open>q\<close>, and
  \<open>candidate_at\<close> is what the inner loop finds for the entry at that position.
\<close>

definition chain_pos :: "nat \<Rightarrow> nat \<Rightarrow> nat \<Rightarrow> nat \<Rightarrow> nat" where
  "chain_pos a h q len = (h + (len - 1) * q) mod a"

definition candidate_at ::
  "'v table_entry_t list \<Rightarrow> nat \<Rightarrow> nat \<Rightarrow> nat \<Rightarrow> nat \<Rightarrow> nat \<Rightarrow> (nat \<times> nat) option" where
  "candidate_at es a len_worst h q len =
     (let p = chain_pos a h q len; q_move = unat (hash (es ! p)) mod (a - 2) + 1
      in move_scan es a len_worst len q_move ((p + q_move) mod a) 1)"

text \<open>
  The same, said without the loop. \<open>own_chain\<close> is the slot \<open>j\<close> steps further on the
  probe chain of the entry that occupies position \<open>len\<close> (the chain of its own hash).
  \<open>admitted\<close>: the slot \<open>h_new\<close>, \<open>len_move\<close> steps further, is the first on that chain
  that is not set, and \<open>len + len_move\<close> does not exceed \<open>len_worst - 1\<close>.
\<close>

definition own_chain :: "'v table_entry_t list \<Rightarrow> nat \<Rightarrow> nat \<Rightarrow> nat \<Rightarrow> nat \<Rightarrow> nat \<Rightarrow> nat" where
  "own_chain es a h q len j =
     (let p = chain_pos a h q len; q_move = unat (hash (es ! p)) mod (a - 2) + 1
      in (p + j * q_move) mod a)"

definition admitted ::
  "'v table_entry_t list \<Rightarrow> nat \<Rightarrow> nat \<Rightarrow> nat \<Rightarrow> nat \<Rightarrow> nat \<Rightarrow> nat \<Rightarrow> nat \<Rightarrow> bool" where
  "admitted es a len_worst h q len h_new len_move \<longleftrightarrow>
     1 \<le> len_move \<and> len + len_move \<le> len_worst - 1
     \<and> h_new = own_chain es a h q len len_move
     \<and> state (es ! h_new) \<noteq> TES_SET
     \<and> (\<forall>j \<in> {1..<len_move}. state (es ! own_chain es a h q len j) = TES_SET)"

text \<open>
  \<open>held es a len_worst h q n\<close> is the candidate met last among the positions 1 to \<open>n\<close>,
  with its position; \<open>held_len_move\<close> is its \<open>len_move\<close>, and \<^verbatim>\<open>(size_t)-1\<close> when there
  is none. \<open>scan_inv\<close>: the loop state at position \<open>scan_len\<close> holds the candidate met
  last before it.
\<close>

fun held ::
  "'v table_entry_t list \<Rightarrow> nat \<Rightarrow> nat \<Rightarrow> nat \<Rightarrow> nat \<Rightarrow> nat \<Rightarrow> (nat \<times> nat \<times> nat) option" where
  "held es a len_worst h q 0 = None"
| "held es a len_worst h q (Suc n) =
     (case candidate_at es a len_worst h q (Suc n) of
        Some (h_new, len_move) \<Rightarrow> Some (Suc n, h_new, len_move)
      | None \<Rightarrow> held es a len_worst h q n)"

definition held_len_move ::
  "'v table_entry_t list \<Rightarrow> nat \<Rightarrow> nat \<Rightarrow> nat \<Rightarrow> nat \<Rightarrow> nat \<Rightarrow> nat" where
  "held_len_move es a len_worst h q n =
     (case held es a len_worst h q n of
        None \<Rightarrow> 2 ^ 64 - 1
      | Some (len_c, h_new, len_move) \<Rightarrow> len_move)"

definition scan_inv ::
  "'v table_entry_t list \<Rightarrow> nat \<Rightarrow> nat \<Rightarrow> nat \<Rightarrow> nat \<Rightarrow> scan_state \<Rightarrow> bool" where
  "scan_inv es a len_worst h q s \<longleftrightarrow>
     1 \<le> scan_len s \<and> scan_h s = chain_pos a h q (scan_len s)
     \<and> entry_move_old s =
         map_option (\<lambda>(len_c, h_new, len_move). chain_pos a h q len_c)
           (held es a len_worst h q (scan_len s - 1))
     \<and> entry_move_new s =
         map_option (\<lambda>(len_c, h_new, len_move). h_new) (held es a len_worst h q (scan_len s - 1))
     \<and> len_entry_move s = held_len_move es a len_worst h q (scan_len s - 1)"

text \<open>
  \<^verbatim>\<open>table_remove\<close>. The entry keeps its hash and its value pointer. With \<open>dup\<close> set the
  key is freed: the pointer left in the entry must not be read any more, and the entry
  has the key \<open>None\<close>, for which \<^verbatim>\<open>table_find\<close> has no result.
\<close>

definition table_remove :: "'v table_t \<Rightarrow> nat \<Rightarrow> 'v table_t" where
  "table_remove t i =
     t\<lparr>entries := (entries t)[i := (entries t ! i)
                       \<lparr>key := (if dup t then None else key (entries t ! i)),
                        state := TES_DELETED\<rparr>],
       count := count t - 1\<rparr>"

text \<open>
  \<^verbatim>\<open>table_rehash\<close>. \<open>calloc_ok\<close> is the outcome of its \<^verbatim>\<open>calloc\<close>. The result is the
  \<^verbatim>\<open>int\<close> returned and the table; no result when a \<^verbatim>\<open>table_insert\<close> has none.
\<close>

fun reinsert :: "'v table_t \<Rightarrow> 'v table_entry_t list \<Rightarrow> 'v table_t option" where
  "reinsert t [] = Some t"
| "reinsert t (e # es) =
     (if state e = TES_SET then
        (case table_insert t (hash e) of
           None \<Rightarrow> None
         | Some (i, t') \<Rightarrow> reinsert (t'\<lparr>entries := (entries t')[i := e]\<rparr>) es)
      else reinsert t es)"

definition table_rehash :: "bool \<Rightarrow> 'v table_t \<Rightarrow> 64 word \<Rightarrow> (int \<times> 'v table_t) option" where
  "table_rehash calloc_ok t a =
     (let alloc_new = table_size a in
      if alloc_new = - 1 then Some (- 1, t)
      else if \<not> calloc_ok then Some (- 1, t)
      else
        (case reinsert (t\<lparr>alloc := alloc_new, load := table_load alloc_new,
                           entries := replicate (unat alloc_new) zero_entry\<rparr>) (entries t) of
           None \<Rightarrow> None
         | Some t' \<Rightarrow> Some (0, t')))"

text \<open>
  \<^verbatim>\<open>table_set\<close>. \<open>calloc_ok\<close> and \<open>strdup_ok\<close> are the outcomes of the allocations it
  may make (in \<^verbatim>\<open>table_rehash\<close>, and when keys are duplicated). A NULL value removes.
\<close>

definition table_set ::
  "bool \<Rightarrow> bool \<Rightarrow> 'v table_t \<Rightarrow> string \<Rightarrow> 'v option \<Rightarrow> (int \<times> 'v table_t) option" where
  "table_set calloc_ok strdup_ok t k v =
     (let hsh = table_hash t k in
      case table_find t k hsh of
        None \<Rightarrow> None
      | Some found \<Rightarrow>
          (case v of
             Some x \<Rightarrow>
               (case found of
                  Some i \<Rightarrow>
                    Some (0, t\<lparr>entries := (entries t)[i := (entries t ! i)\<lparr>val := Some x\<rparr>]\<rparr>)
                | None \<Rightarrow>
                    (case (if count t = load t then table_rehash calloc_ok t (alloc t + 1)
                           else Some (0, t)) of
                       None \<Rightarrow> None
                     | Some (rc, t1) \<Rightarrow>
                         if rc \<noteq> 0 then Some (- 1, t1)
                         else
                           (case table_insert t1 hsh of
                              None \<Rightarrow> None
                            | Some (i, t2) \<Rightarrow>
                                if dup t2 \<and> \<not> strdup_ok then
                                  Some (- 1, t2\<lparr>entries :=
                                    (entries t2)[i := (entries t2 ! i)\<lparr>key := None\<rparr>]\<rparr>)
                                else
                                  Some (0, t2\<lparr>entries :=
                                    (entries t2)[i := \<lparr>key = Some k, val = Some x, hash = hsh,
                                                       state = TES_SET\<rparr>],
                                    count := count t2 + 1\<rparr>))))
           | None \<Rightarrow>
               (case found of
                  Some i \<Rightarrow> Some (0, table_remove t i)
                | None \<Rightarrow> Some (0, t))))"

text \<open>\<^verbatim>\<open>table_clear\<close>: both branches leave an array of zeroed entries and no count.\<close>

definition table_clear :: "'v table_t \<Rightarrow> 'v table_t" where
  "table_clear t =
     (let t1 = (if dup t \<or> free t
                then foldl (\<lambda>t' i. if state (entries t' ! i) = TES_SET then table_remove t' i else t')
                       t [0..<unat (alloc t)]
                else t\<lparr>count := 0\<rparr>)
      in t1\<lparr>entries := replicate (unat (alloc t1)) zero_entry\<rparr>)"

definition table_set_dup :: "'v table_t \<Rightarrow> bool \<Rightarrow> int \<times> 'v table_t" where
  "table_set_dup t d = (if count t \<noteq> 0 then (- 1, t) else (0, t\<lparr>dup := d\<rparr>))"

definition table_set_free :: "'v table_t \<Rightarrow> bool \<Rightarrow> int \<times> 'v table_t" where
  "table_set_free t f = (if count t \<noteq> 0 then (- 1, t) else (0, t\<lparr>free := f\<rparr>))"

definition table_set_ci :: "'v table_t \<Rightarrow> bool \<Rightarrow> int \<times> 'v table_t" where
  "table_set_ci t c = (if count t \<noteq> 0 then (- 1, t) else (0, t\<lparr>ci := c\<rparr>))"

text \<open>
  \<open>inserted t0 n t\<close>: the table \<open>t\<close> is what \<open>n\<close> calls of \<^verbatim>\<open>table_set\<close> with a value that
  is not NULL, each with a result, make of \<open>t0\<close> (any keys, any allocation outcomes).
\<close>

inductive inserted :: "'v table_t \<Rightarrow> nat \<Rightarrow> 'v table_t \<Rightarrow> bool" for t0 :: "'v table_t" where
  inserted_0: "inserted t0 0 t0"
| inserted_Suc: "inserted t0 n t \<Longrightarrow> table_set calloc_ok strdup_ok t k (Some x) = Some (rc, t')
     \<Longrightarrow> inserted t0 (Suc n) t'"

subsection \<open>Example tables\<close>

text \<open>
  \<open>t3\<close> is the table \<^verbatim>\<open>table_create(0)\<close> returns, \<open>t3_a\<close> is \<open>t3\<close> after
  \<^verbatim>\<open>table_set(t, "a", v)\<close>, \<open>t3_a_removed\<close> after \<^verbatim>\<open>table_set(t, "a", NULL)\<close> then;
  \<open>t5\<close> is what \<^verbatim>\<open>table_create(2)\<close> returns. The value pointers are numbers.
\<close>

definition t3 :: "nat table_t" where
  "t3 = \<lparr>alloc = 3, load = 1, count = 0, entries = [zero_entry, zero_entry, zero_entry],
          dup = False, free = False, ci = False\<rparr>"

definition entry_a :: "nat table_entry_t" where
  "entry_a = \<lparr>key = Some ''a'', val = Some 1, hash = 12638187200555641996, state = TES_SET\<rparr>"

definition t3_a :: "nat table_t" where
  "t3_a = t3\<lparr>entries := [zero_entry, entry_a, zero_entry], count := 1\<rparr>"

definition t3_a_removed :: "nat table_t" where
  "t3_a_removed =
     t3\<lparr>entries := [zero_entry, entry_a\<lparr>state := TES_DELETED\<rparr>, zero_entry], count := 0\<rparr>"

definition t5 :: "nat table_t" where
  "t5 = \<lparr>alloc = 5, load = 3, count = 0,
          entries = [zero_entry, zero_entry, zero_entry, zero_entry, zero_entry],
          dup = False, free = False, ci = False\<rparr>"

definition t5_a :: "nat table_t" where
  "t5_a = t5\<lparr>entries := [zero_entry, entry_a, zero_entry, zero_entry, zero_entry], count := 1\<rparr>"

text \<open>
  \<open>t13_fresh\<close> is the table \<^verbatim>\<open>table_create(8)\<close> returns (capacity 13, threshold 10);
  \<open>t13\<close> is that table after \<^verbatim>\<open>table_set\<close> of the nine keys \<^verbatim>\<open>bu lb dq rt gc rf xv zj rl\<close>
  with the values 1 to 9, in this order.
\<close>

definition set_entry :: "string \<Rightarrow> nat \<Rightarrow> 64 word \<Rightarrow> nat table_entry_t" where
  "set_entry k v h = \<lparr>key = Some k, val = Some v, hash = h, state = TES_SET\<rparr>"

definition table13 :: "nat \<Rightarrow> nat table_entry_t list \<Rightarrow> nat table_t" where
  "table13 c es = \<lparr>alloc = 13, load = 10, count = of_nat c, entries = es,
     dup = False, free = False, ci = False\<rparr>"

definition t13_fresh :: "nat table_t" where
  "t13_fresh = table13 0
    [zero_entry, zero_entry, zero_entry, zero_entry, zero_entry, zero_entry, zero_entry,
     zero_entry, zero_entry, zero_entry, zero_entry, zero_entry, zero_entry]"

definition t13 :: "nat table_t" where
  "t13 = table13 9
    [set_entry ''lb'' 2 623247204195096715, set_entry ''rf'' 6 619330743776166033,
     set_entry ''gc'' 5 622148792078703151, zero_entry,
     set_entry ''rl'' 9 625241718288293019, zero_entry,
     set_entry ''dq'' 3 635673884614677512, set_entry ''xv'' 7 634800872382067203,
     set_entry ''rt'' 4 632823950474922275, zero_entry, zero_entry,
     set_entry ''bu'' 1 631713443730618390, set_entry ''zj'' 8 630871217823597989]"

section \<open>The template compiler (template.c)\<close>

text \<open>
  A node of the compiled sequence is the tagged union \<^verbatim>\<open>node_t\<close>; a jump target is an
  \<^verbatim>\<open>off_t\<close>, here an \<open>int\<close>, with \<open>-1\<close> for a target not yet known. \<open>'e\<close> is the type
  of a compiled expression (the registry reference \<^verbatim>\<open>luaL_ref\<close> returns). A block is an
  entry of the parse-time stack \<^verbatim>\<open>p->blocks\<close>.
\<close>

datatype 'e node_t =
    NT_NONE
  | NT_JUMP int
  | NT_IF 'e int
  | NT_FOR_INIT 'e
  | NT_FOR_NEXT "string list" int
  | NT_SET "string list" 'e
  | NT_INCLUDE 'e
  | NT_SUB 'e nat
  | NT_RAW string

datatype block_t =
    Block_IF int int nat
  | Block_FOR_NEXT int

text \<open>
  A failed compilation or rendering: \<open>Error msg\<close> is a \<^verbatim>\<open>luaL_error\<close> (the message
  without its \<^verbatim>\<open>filename:line:\<close> prefix); \<open>Undefined\<close> stands for an access the C code
  would make outside a list or through the wrong member of a union.
\<close>

datatype failure = Error string | Undefined

record 'e parser_t =
  nodes :: "'e node_t list"
  blocks :: "block_t list"

definition TEMPLATE_EOPEN :: nat where "TEMPLATE_EOPEN = 1"
definition TEMPLATE_ECLOSE :: nat where "TEMPLATE_ECLOSE = 2"
definition TEMPLATE_FESC :: nat where "TEMPLATE_FESC = 255"
definition TEMPLATE_FESCXML :: nat where "TEMPLATE_FESCXML = 1"
definition TEMPLATE_FESCURL :: nat where "TEMPLATE_FESCURL = 2"
definition TEMPLATE_FESCJS :: nat where "TEMPLATE_FESCJS = 3"
definition TEMPLATE_FSUPNIL :: nat where "TEMPLATE_FSUPNIL = 256"
definition TEMPLATE_MAX_DEPTH :: nat where "TEMPLATE_MAX_DEPTH = 8"

text \<open>
  The model of the compiler starts where the tag scanner of \<^verbatim>\<open>template_parse\<close> and
  \<^verbatim>\<open>template_parse_element\<close> hands over: an element is its name, its flags
  (\<^verbatim>\<open>p->element\<close>) and what \<^verbatim>\<open>table_get(p->attrs, name)\<close> returns for an attribute name
  (\<open>None\<close> is NULL); a substitution is the text between the brackets, if there are
  brackets, and the expression; a raw run is its bytes. List and string allocations are
  taken to succeed (their failure ends the compilation in \<^verbatim>\<open>template_oom\<close>).
\<close>

datatype item =
    Element string nat "string \<Rightarrow> string option"
  | Sub "string option" string
  | Raw string

text \<open>\<^verbatim>\<open>template_parse_flags\<close>, with \<open>v\<close> the value so far.\<close>

fun template_parse_flags :: "string \<Rightarrow> nat \<Rightarrow> failure + nat" where
  "template_parse_flags [] v = Inr v"
| "template_parse_flags (f # fs) v =
     (if f = CHR ''x'' then
        (if v AND TEMPLATE_FESC \<noteq> 0 then Inl (Error ''bad flags: multiple escacpes'')
         else template_parse_flags fs (v OR TEMPLATE_FESCXML))
      else if f = CHR ''u'' then
        (if v AND TEMPLATE_FESC \<noteq> 0 then Inl (Error ''bad flags: multiple escacpes'')
         else template_parse_flags fs (v OR TEMPLATE_FESCURL))
      else if f = CHR ''j'' then
        (if v AND TEMPLATE_FESC \<noteq> 0 then Inl (Error ''bad flags: multiple escacpes'')
         else template_parse_flags fs (v OR TEMPLATE_FESCJS))
      else if f = CHR ''n'' then template_parse_flags fs (v OR TEMPLATE_FSUPNIL)
      else Inl (Error ''bad flags: unknown character''))"

text \<open>
  \<^verbatim>\<open>template_parse_names\<close>: the tokens \<^verbatim>\<open>strtok_r\<close> cuts out of the attribute value with
  the delimiters tab, space and comma.
\<close>

definition is_delim :: "char \<Rightarrow> bool" where
  "is_delim c \<longleftrightarrow> c = CHR 0x09 \<or> c = CHR '' '' \<or> c = CHR '',''"

function strtok_r :: "string \<Rightarrow> string list" where
  "strtok_r s =
     (case dropWhile is_delim s of
        [] \<Rightarrow> []
      | c # cs \<Rightarrow> (c # takeWhile (\<lambda>x. \<not> is_delim x) cs)
                   # strtok_r (dropWhile (\<lambda>x. \<not> is_delim x) cs))"
  by pat_completeness auto
termination
proof (relation "measure length")
  fix s :: string and c cs
  assume "dropWhile is_delim s = c # cs"
  then have "length (c # cs) \<le> length s"
    by (metis length_dropWhile_le)
  moreover have "length (dropWhile (\<lambda>x. \<not> is_delim x) cs) \<le> length cs"
    by (rule length_dropWhile_le)
  ultimately show "(dropWhile (\<lambda>x. \<not> is_delim x) cs, s) \<in> measure length" by simp
qed simp

declare strtok_r.simps [simp del]

text \<open>A name between apostrophes, for the messages.\<close>

definition quoted :: "string \<Rightarrow> string" where
  "quoted s = [CHR 0x27] @ s @ [CHR 0x27]"

definition template_parse_names :: "string \<Rightarrow> failure + string list" where
  "template_parse_names names =
     (let l = strtok_r names in
      if length l = 0 then Inl (Error (''empty '' @ quoted ''names'')) else Inr l)"

text \<open>
  \<^verbatim>\<open>template_parse_expression\<close>: \<open>loadbuffer\<close> is \<^verbatim>\<open>luaL_loadbufferx\<close> on the chunk
  \<^verbatim>\<open>return EXPR\<close>, which gives the compiled expression or the message of a syntax error.
\<close>

definition template_parse_expression :: "(string \<Rightarrow> string + 'e) \<Rightarrow> string \<Rightarrow> failure + 'e" where
  "template_parse_expression loadbuffer exp =
     (case loadbuffer (''return '' @ exp) of Inl msg \<Rightarrow> Inl (Error msg) | Inr e \<Rightarrow> Inr e)"

text \<open>
  Reads and writes of a field of the node at an index (\<^verbatim>\<open>list_get\<close>, then the member):
  \<open>None\<close> when the index is outside the list or the node is of another type.
\<close>

definition get_if_next :: "'e node_t list \<Rightarrow> int \<Rightarrow> int option" where
  "get_if_next ns i =
     (if 0 \<le> i \<and> i < int (length ns) then
        (case ns ! nat i of NT_IF e t \<Rightarrow> Some t | _ \<Rightarrow> None)
      else None)"

definition set_if_next :: "'e node_t list \<Rightarrow> int \<Rightarrow> int \<Rightarrow> 'e node_t list option" where
  "set_if_next ns i t =
     (if 0 \<le> i \<and> i < int (length ns) then
        (case ns ! nat i of NT_IF e old \<Rightarrow> Some (ns[nat i := NT_IF e t]) | _ \<Rightarrow> None)
      else None)"

definition set_jump_next :: "'e node_t list \<Rightarrow> int \<Rightarrow> int \<Rightarrow> 'e node_t list option" where
  "set_jump_next ns i t =
     (if 0 \<le> i \<and> i < int (length ns) then
        (case ns ! nat i of NT_JUMP old \<Rightarrow> Some (ns[nat i := NT_JUMP t]) | _ \<Rightarrow> None)
      else None)"

definition set_for_next_next :: "'e node_t list \<Rightarrow> int \<Rightarrow> int \<Rightarrow> 'e node_t list option" where
  "set_for_next_next ns i t =
     (if 0 \<le> i \<and> i < int (length ns) then
        (case ns ! nat i of
           NT_FOR_NEXT names old \<Rightarrow> Some (ns[nat i := NT_FOR_NEXT names t])
         | _ \<Rightarrow> None)
      else None)"

text \<open>
  The \<^verbatim>\<open>while (block->if_count > 0)\<close> loop that closes an \<^verbatim>\<open>if\<close>: \<open>i\<close> is the index of
  \<open>node\<close>, \<open>c\<close> is \<open>if_count\<close>; each round reads \<open>node->if_next\<close>, moves \<open>node\<close> there and
  writes the jump target of the node before it. \<open>p->nodes->count\<close> does not change.
\<close>

fun patch_jumps :: "'e node_t list \<Rightarrow> int \<Rightarrow> nat \<Rightarrow> failure + 'e node_t list" where
  "patch_jumps ns i 0 = Inr ns"
| "patch_jumps ns i (Suc c) =
     (case get_if_next ns i of
        None \<Rightarrow> Inl Undefined
      | Some nx \<Rightarrow>
          (case set_jump_next ns (nx - 1) (int (length ns)) of
             None \<Rightarrow> Inl Undefined
           | Some ns' \<Rightarrow> patch_jumps ns' nx c))"

definition template_parse_if ::
  "(string \<Rightarrow> string + 'e) \<Rightarrow> nat \<Rightarrow> (string \<Rightarrow> string option) \<Rightarrow> 'e parser_t
   \<Rightarrow> failure + 'e parser_t" where
  "template_parse_if loadbuffer element attrs p =
     (case
        (if element AND TEMPLATE_EOPEN \<noteq> 0 then
           (case attrs ''cond'' of
              None \<Rightarrow> Inl (Error (''missing attribute '' @ quoted ''cond''))
            | Some cond \<Rightarrow>
                (case template_parse_expression loadbuffer cond of
                   Inl f \<Rightarrow> Inl f
                 | Inr e \<Rightarrow>
                     Inr (p\<lparr>blocks := blocks p @
                               [Block_IF (int (length (nodes p))) (int (length (nodes p))) 0],
                            nodes := nodes p @ [NT_IF e (- 1)]\<rparr>)))
         else Inr p) of
        Inl f \<Rightarrow> Inl f
      | Inr p1 \<Rightarrow>
          if element AND TEMPLATE_ECLOSE \<noteq> 0 then
            (case rev (blocks p1) of
               Block_IF if_start if_last if_count # bs \<Rightarrow>
                 (case (if if_last \<noteq> - 1
                        then set_if_next (nodes p1) if_last (int (length (nodes p1)))
                        else Some (nodes p1)) of
                    None \<Rightarrow> Inl Undefined
                  | Some ns \<Rightarrow>
                      (case patch_jumps ns if_start if_count of
                         Inl f \<Rightarrow> Inl f
                       | Inr ns' \<Rightarrow> Inr (p1\<lparr>blocks := rev bs, nodes := ns'\<rparr>)))
             | _ \<Rightarrow> Inl (Error (''no '' @ quoted ''if'' @ '' to close'')))
          else Inr p1)"

text \<open>
  \<^verbatim>\<open>template_parse_elseif\<close> and \<^verbatim>\<open>template_parse_else\<close> work on the block on top of the
  stack, in place.
\<close>

definition template_parse_elseif ::
  "(string \<Rightarrow> string + 'e) \<Rightarrow> nat \<Rightarrow> (string \<Rightarrow> string option) \<Rightarrow> 'e parser_t
   \<Rightarrow> failure + 'e parser_t" where
  "template_parse_elseif loadbuffer element attrs p =
     (if element AND TEMPLATE_EOPEN \<noteq> 0 then
        (case rev (blocks p) of
           Block_IF if_start if_last if_count # bs \<Rightarrow>
             if if_last = - 1 then Inl (Error (''no '' @ quoted ''if'' @ '' to continue''))
             else
               (let ns1 = nodes p @ [NT_JUMP (- 1)] in
                case set_if_next ns1 if_last (int (length ns1)) of
                  None \<Rightarrow> Inl Undefined
                | Some ns2 \<Rightarrow>
                    (case attrs ''cond'' of
                       None \<Rightarrow> Inl (Error (''missing attribute '' @ quoted ''cond''))
                     | Some cond \<Rightarrow>
                         (case template_parse_expression loadbuffer cond of
                            Inl f \<Rightarrow> Inl f
                          | Inr e \<Rightarrow>
                              Inr (p\<lparr>blocks := rev bs @
                                        [Block_IF if_start (int (length ns1)) (if_count + 1)],
                                     nodes := ns2 @ [NT_IF e (- 1)]\<rparr>))))
         | _ \<Rightarrow> Inl (Error (''no '' @ quoted ''if'' @ '' to continue'')))
      else Inr p)"

definition template_parse_else :: "nat \<Rightarrow> 'e parser_t \<Rightarrow> failure + 'e parser_t" where
  "template_parse_else element p =
     (if element AND TEMPLATE_EOPEN \<noteq> 0 then
        (case rev (blocks p) of
           Block_IF if_start if_last if_count # bs \<Rightarrow>
             if if_last = - 1 then Inl (Error (''no '' @ quoted ''if'' @ '' to continue''))
             else
               (let ns1 = nodes p @ [NT_JUMP (- 1)] in
                case set_if_next ns1 if_last (int (length ns1)) of
                  None \<Rightarrow> Inl Undefined
                | Some ns2 \<Rightarrow>
                    Inr (p\<lparr>blocks := rev bs @ [Block_IF if_start (- 1) (if_count + 1)],
                           nodes := ns2\<rparr>))
         | _ \<Rightarrow> Inl (Error (''no '' @ quoted ''if'' @ '' to continue'')))
      else Inr p)"

definition template_parse_for ::
  "(string \<Rightarrow> string + 'e) \<Rightarrow> nat \<Rightarrow> (string \<Rightarrow> string option) \<Rightarrow> 'e parser_t
   \<Rightarrow> failure + 'e parser_t" where
  "template_parse_for loadbuffer element attrs p =
     (case
        (if element AND TEMPLATE_EOPEN \<noteq> 0 then
           (case attrs ''in'' of
              None \<Rightarrow> Inl (Error (''missing attribute '' @ quoted ''in''))
            | Some src \<Rightarrow>
                (case template_parse_expression loadbuffer src of
                   Inl f \<Rightarrow> Inl f
                 | Inr e \<Rightarrow>
                     (case attrs ''names'' of
                        None \<Rightarrow> Inl (Error (''missing attribute '' @ quoted ''names''))
                      | Some names \<Rightarrow>
                          (case template_parse_names names of
                             Inl f \<Rightarrow> Inl f
                           | Inr l \<Rightarrow>
                               Inr (p\<lparr>blocks := blocks p @
                                         [Block_FOR_NEXT (int (length (nodes p)) + 1)],
                                      nodes := nodes p @
                                         [NT_FOR_INIT e, NT_FOR_NEXT l (- 1)]\<rparr>)))))
         else Inr p) of
        Inl f \<Rightarrow> Inl f
      | Inr p1 \<Rightarrow>
          if element AND TEMPLATE_ECLOSE \<noteq> 0 then
            (case rev (blocks p1) of
               Block_FOR_NEXT for_start # bs \<Rightarrow>
                 (let ns1 = nodes p1 @ [NT_JUMP for_start] in
                  case set_for_next_next ns1 for_start (int (length ns1)) of
                    None \<Rightarrow> Inl Undefined
                  | Some ns2 \<Rightarrow> Inr (p1\<lparr>blocks := rev bs, nodes := ns2\<rparr>))
             | _ \<Rightarrow> Inl (Error (''no '' @ quoted ''for'' @ '' to close'')))
          else Inr p1)"

definition template_parse_set ::
  "(string \<Rightarrow> string + 'e) \<Rightarrow> nat \<Rightarrow> (string \<Rightarrow> string option) \<Rightarrow> 'e parser_t
   \<Rightarrow> failure + 'e parser_t" where
  "template_parse_set loadbuffer element attrs p =
     (if element AND TEMPLATE_EOPEN \<noteq> 0 then
        (case attrs ''names'' of
           None \<Rightarrow> Inl (Error (''missing attribute '' @ quoted ''names''))
         | Some names \<Rightarrow>
             (case template_parse_names names of
                Inl f \<Rightarrow> Inl f
              | Inr l \<Rightarrow>
                  (case attrs ''expressions'' of
                     None \<Rightarrow> Inl (Error (''missing attribute '' @ quoted ''expressions''))
                   | Some expressions \<Rightarrow>
                       (case template_parse_expression loadbuffer expressions of
                          Inl f \<Rightarrow> Inl f
                        | Inr e \<Rightarrow> Inr (p\<lparr>nodes := nodes p @ [NT_SET l e]\<rparr>)))))
      else Inr p)"

definition template_parse_include ::
  "(string \<Rightarrow> string + 'e) \<Rightarrow> nat \<Rightarrow> (string \<Rightarrow> string option) \<Rightarrow> 'e parser_t
   \<Rightarrow> failure + 'e parser_t" where
  "template_parse_include loadbuffer element attrs p =
     (if element AND TEMPLATE_EOPEN \<noteq> 0 then
        (case attrs ''filename'' of
           None \<Rightarrow> Inl (Error (''missing attribute '' @ quoted ''filename''))
         | Some filename \<Rightarrow>
             (case template_parse_expression loadbuffer filename of
                Inl f \<Rightarrow> Inl f
              | Inr e \<Rightarrow> Inr (p\<lparr>nodes := nodes p @ [NT_INCLUDE e]\<rparr>)))
      else Inr p)"

text \<open>The \<^verbatim>\<open>switch\<close> that ends \<^verbatim>\<open>template_parse_element\<close>.\<close>

definition template_parse_element ::
  "(string \<Rightarrow> string + 'e) \<Rightarrow> string \<Rightarrow> nat \<Rightarrow> (string \<Rightarrow> string option) \<Rightarrow> 'e parser_t
   \<Rightarrow> failure + 'e parser_t" where
  "template_parse_element loadbuffer name element attrs p =
     (if name = ''if'' then template_parse_if loadbuffer element attrs p
      else if name = ''for'' then template_parse_for loadbuffer element attrs p
      else if name = ''set'' then template_parse_set loadbuffer element attrs p
      else if name = ''else'' then template_parse_else element p
      else if name = ''elseif'' then template_parse_elseif loadbuffer element attrs p
      else if name = ''include'' then template_parse_include loadbuffer element attrs p
      else Inl (Error ''bad element''))"

text \<open>
  \<^verbatim>\<open>template_parse_sub\<close>: \<open>flags\<close> is the text between \<^verbatim>\<open>[\<close> and \<^verbatim>\<open>]\<close>, \<open>None\<close> when the
  substitution has no brackets.
\<close>

definition template_parse_sub ::
  "(string \<Rightarrow> string + 'e) \<Rightarrow> string option \<Rightarrow> string \<Rightarrow> 'e parser_t \<Rightarrow> failure + 'e parser_t" where
  "template_parse_sub loadbuffer flags expression p =
     (case (case flags of
              Some fs \<Rightarrow> template_parse_flags fs 0
            | None \<Rightarrow> Inr TEMPLATE_FESCXML) of
        Inl f \<Rightarrow> Inl f
      | Inr sub_flags \<Rightarrow>
          (case template_parse_expression loadbuffer expression of
             Inl f \<Rightarrow> Inl f
           | Inr e \<Rightarrow> Inr (p\<lparr>nodes := nodes p @ [NT_SUB e sub_flags]\<rparr>)))"

definition template_parse_raw :: "string \<Rightarrow> 'e parser_t \<Rightarrow> 'e parser_t" where
  "template_parse_raw raw p = (if length raw > 0 then p\<lparr>nodes := nodes p @ [NT_RAW raw]\<rparr> else p)"

fun parse_items ::
  "(string \<Rightarrow> string + 'e) \<Rightarrow> item list \<Rightarrow> 'e parser_t \<Rightarrow> failure + 'e parser_t" where
  "parse_items loadbuffer [] p = Inr p"
| "parse_items loadbuffer (Element name element attrs # is) p =
     (case template_parse_element loadbuffer name element attrs p of
        Inl f \<Rightarrow> Inl f
      | Inr p' \<Rightarrow> parse_items loadbuffer is p')"
| "parse_items loadbuffer (Sub flags expression # is) p =
     (case template_parse_sub loadbuffer flags expression p of
        Inl f \<Rightarrow> Inl f
      | Inr p' \<Rightarrow> parse_items loadbuffer is p')"
| "parse_items loadbuffer (Raw raw # is) p = parse_items loadbuffer is (template_parse_raw raw p)"

text \<open>\<^verbatim>\<open>%d\<close> of a count: its decimal digits.\<close>

function decimal :: "nat \<Rightarrow> string" where
  "decimal n = (if n < 10 then [char_of (48 + n)]
                else decimal (n div 10) @ [char_of (48 + n mod 10)])"
  by pat_completeness auto
termination
  by (relation "measure (\<lambda>n. n)") auto

declare decimal.simps [simp del]

text \<open>
  \<^verbatim>\<open>template_parse\<close>: the items in the order of the source, then the test for open blocks.
  The result is the node list of the template.
\<close>

definition template_parse :: "(string \<Rightarrow> string + 'e) \<Rightarrow> item list \<Rightarrow> failure + 'e node_t list" where
  "template_parse loadbuffer is =
     (case parse_items loadbuffer is \<lparr>nodes = [], blocks = []\<rparr> of
        Inl f \<Rightarrow> Inl f
      | Inr p \<Rightarrow>
          if length (blocks p) > 0
          then Inl (Error (decimal (length (blocks p)) @ '' open element(s) at end of template''))
          else Inr (nodes p))"

section \<open>The interpreter (template.c)\<close>

text \<open>
  Lua is the environment of the interpreter. A Lua value is modelled as far as the
  interpreter looks at it: a number carries the string \<^verbatim>\<open>lua_tostring\<close> converts it to, a
  function its identity, any other value the name of its type. \<open>'w\<close> is the state of the
  Lua side (the binding context and whatever else the expressions read and write).
\<close>

datatype lua_value =
    Nil
  | Boolean bool
  | Number string
  | String string
  | Function nat
  | Other string

definition lua_toboolean :: "lua_value \<Rightarrow> bool" where
  "lua_toboolean v = (case v of Nil \<Rightarrow> False | Boolean b \<Rightarrow> b | _ \<Rightarrow> True)"

definition lua_isstring :: "lua_value \<Rightarrow> bool" where
  "lua_isstring v = (case v of String s \<Rightarrow> True | Number s \<Rightarrow> True | _ \<Rightarrow> False)"

definition lua_isnil :: "lua_value \<Rightarrow> bool" where
  "lua_isnil v = (case v of Nil \<Rightarrow> True | _ \<Rightarrow> False)"

definition lua_tostring :: "lua_value \<Rightarrow> string" where
  "lua_tostring v = (case v of String s \<Rightarrow> s | Number s \<Rightarrow> s | _ \<Rightarrow> [])"

definition luaL_typename :: "lua_value \<Rightarrow> string" where
  "luaL_typename v =
     (case v of Nil \<Rightarrow> ''nil'' | Boolean b \<Rightarrow> ''boolean'' | Number s \<Rightarrow> ''number''
      | String s \<Rightarrow> ''string'' | Function f \<Rightarrow> ''function'' | Other t \<Rightarrow> t)"

text \<open>
  What the interpreter asks of Lua: \<open>lua_eval\<close> calls a compiled expression (bound to the
  binding context) and \<open>lua_call\<close> calls a function value with arguments; both give all the
  values returned and the new state, or the error raised. \<open>lua_setfield\<close> stores a value
  under a name in the binding context.
\<close>

record ('e, 'w) lua_t =
  lua_eval :: "'e \<Rightarrow> 'w \<Rightarrow> failure + (lua_value list \<times> 'w)"
  lua_call :: "lua_value \<Rightarrow> lua_value list \<Rightarrow> 'w \<Rightarrow> failure + (lua_value list \<times> 'w)"
  lua_setfield :: "string \<Rightarrow> lua_value \<Rightarrow> 'w \<Rightarrow> 'w"

text \<open>\<^verbatim>\<open>lua_call\<close> adjusts the results to \<open>nret\<close> values: the rest is dropped, nil fills up.\<close>

definition adjust :: "nat \<Rightarrow> lua_value list \<Rightarrow> lua_value list" where
  "adjust nret vs = take nret (vs @ replicate nret Nil)"

text \<open>\<^verbatim>\<open>template_eval\<close>: the expression called for \<open>nret\<close> results.\<close>

definition template_eval ::
  "('e, 'w) lua_t \<Rightarrow> 'e \<Rightarrow> nat \<Rightarrow> 'w \<Rightarrow> failure + (lua_value list \<times> 'w)" where
  "template_eval L e nret w =
     (case lua_eval L e w of Inl f \<Rightarrow> Inl f | Inr (vs, w') \<Rightarrow> Inr (adjust nret vs, w'))"

text \<open>
  The state of a rendering: the node index \<open>i\<close>; the part of the Lua stack the loops use,
  top first; the state of the Lua side; the bytes written to the stream so far (writes
  are taken to succeed).
\<close>

record 'w render_state =
  ip :: nat
  stack :: "lua_value list"
  world :: 'w
  out :: string

text \<open>An \<^verbatim>\<open>off_t\<close> assigned to the \<^verbatim>\<open>size_t\<close> \<open>i\<close>.\<close>

definition to_size_t :: "int \<Rightarrow> nat" where
  "to_size_t t = nat (t mod 2 ^ 64)"

text \<open>A C string ends at its first NUL.\<close>

definition c_str :: "string \<Rightarrow> string" where
  "c_str s = takeWhile (\<lambda>c. c \<noteq> CHR 0x00) s"

text \<open>The three encoders of a substitution, byte by byte.\<close>

definition escape_xml :: "string \<Rightarrow> string" where
  "escape_xml s =
     concat (map (\<lambda>c. if c = CHR ''&'' then ''&amp;'' else if c = CHR ''<'' then ''&lt;''
                       else if c = CHR ''>'' then ''&gt;'' else [c]) s)"

definition isalnum :: "char \<Rightarrow> bool" where
  "isalnum c \<longleftrightarrow> (let n = (of_char c :: nat) in
     (48 \<le> n \<and> n \<le> 57) \<or> (65 \<le> n \<and> n \<le> 90) \<or> (97 \<le> n \<and> n \<le> 122))"

definition template_hex_digits :: string where
  "template_hex_digits = ''0123456789ABCDEF''"

text \<open>
  For a byte of 128 or more the \<^verbatim>\<open>char\<close> is negative, and the index into
  \<^verbatim>\<open>template_hex_digits\<close> is outside the array: no result.
\<close>

definition escape_url :: "string \<Rightarrow> string option" where
  "escape_url s =
     (if \<exists>c \<in> set s. (of_char c :: nat) \<ge> 128 then None
      else Some (concat (map (\<lambda>c.
        if isalnum c \<or> c = CHR ''-'' \<or> c = CHR ''.'' \<or> c = CHR ''_'' \<or> c = CHR ''~'' then [c]
        else [CHR ''%'', template_hex_digits ! (of_char c div 16),
              template_hex_digits ! (of_char c mod 16)]) s)))"

definition escape_js :: "string \<Rightarrow> string" where
  "escape_js s =
     concat (map (\<lambda>c.
       if c = CHR 0x08 then [CHR 0x5C, CHR ''b'']
       else if c = CHR 0x09 then [CHR 0x5C, CHR ''t'']
       else if c = CHR 0x0A then [CHR 0x5C, CHR ''n'']
       else if c = CHR 0x0B then [CHR 0x5C, CHR ''v'']
       else if c = CHR 0x0C then [CHR 0x5C, CHR ''f'']
       else if c = CHR 0x0D then [CHR 0x5C, CHR ''r'']
       else if c = CHR 0x22 then [CHR 0x5C, CHR 0x22]
       else if c = CHR 0x27 then [CHR 0x5C, CHR 0x27]
       else if c = CHR 0x5C then [CHR 0x5C, CHR 0x5C]
       else [c]) s)"

text \<open>
  The string a substitution writes for a value, and the \<^verbatim>\<open>switch\<close> on
  \<^verbatim>\<open>node->sub_flags & TEMPLATE_FESC\<close> that encodes it; the \<^verbatim>\<open>default\<close> case writes the
  string as it is.
\<close>

definition sub_string :: "nat \<Rightarrow> lua_value \<Rightarrow> string" where
  "sub_string sub_flags v =
     (if lua_isstring v then c_str (lua_tostring v)
      else if lua_isnil v \<and> sub_flags AND TEMPLATE_FSUPNIL \<noteq> 0 then []
      else ''('' @ luaL_typename v @ '')'')"

definition sub_encode :: "nat \<Rightarrow> string \<Rightarrow> string option" where
  "sub_encode sub_flags str =
     (if sub_flags AND TEMPLATE_FESC = TEMPLATE_FESCXML then Some (escape_xml str)
      else if sub_flags AND TEMPLATE_FESC = TEMPLATE_FESCURL then escape_url str
      else if sub_flags AND TEMPLATE_FESC = TEMPLATE_FESCJS then Some (escape_js str)
      else Some str)"

text \<open>
  The \<^verbatim>\<open>while (nret > 0)\<close> loops of \<^verbatim>\<open>NT_FOR_NEXT\<close> and \<^verbatim>\<open>NT_SET\<close>: the values are taken
  from the top of the stack, so the last name is stored first.
\<close>

definition bind_names :: "('e, 'w) lua_t \<Rightarrow> string list \<Rightarrow> lua_value list \<Rightarrow> 'w \<Rightarrow> 'w" where
  "bind_names L names vs w = foldl (\<lambda>w (n, v). lua_setfield L n v w) w (rev (zip names vs))"

text \<open>
  One round of the \<^verbatim>\<open>while (i < template->nodes->count)\<close> loop, for the node at \<open>i\<close>.
  \<open>include\<close> renders the template of a file name at the next depth. The outer \<open>option\<close>
  is \<open>None\<close> when the round does not return (an included rendering that does not end).
\<close>

definition render_node ::
  "('e, 'w) lua_t \<Rightarrow> (string \<Rightarrow> 'w render_state \<Rightarrow> (failure + 'w render_state) option)
   \<Rightarrow> 'e node_t \<Rightarrow> 'w render_state \<Rightarrow> (failure + 'w render_state) option" where
  "render_node L include node s =
     (case node of
        NT_NONE \<Rightarrow> Some (Inr (s\<lparr>ip := ip s + 1\<rparr>))
      | NT_JUMP t \<Rightarrow> Some (Inr (s\<lparr>ip := to_size_t t\<rparr>))
      | NT_IF e t \<Rightarrow>
          (case template_eval L e 1 (world s) of
             Inl f \<Rightarrow> Some (Inl f)
           | Inr (vs, w) \<Rightarrow>
               if lua_toboolean (hd vs) then Some (Inr (s\<lparr>ip := ip s + 1, world := w\<rparr>))
               else Some (Inr (s\<lparr>ip := to_size_t t, world := w\<rparr>)))
      | NT_FOR_INIT e \<Rightarrow>
          (case template_eval L e 3 (world s) of
             Inl f \<Rightarrow> Some (Inl f)
           | Inr (vs, w) \<Rightarrow>
               Some (Inr (s\<lparr>ip := ip s + 1, stack := rev vs @ stack s, world := w\<rparr>)))
      | NT_FOR_NEXT names t \<Rightarrow>
          (case stack s of
             control # subject # iterator # rest \<Rightarrow>
               if names = [] then Some (Inl Undefined)
               else
                 (case lua_call L iterator [subject, control] (world s) of
                    Inl f \<Rightarrow> Some (Inl f)
                  | Inr (rs, w) \<Rightarrow>
                      (let vs = adjust (length names) rs in
                       if lua_isnil (hd vs)
                       then Some (Inr (s\<lparr>ip := to_size_t t, stack := rest, world := w\<rparr>))
                       else Some (Inr (s\<lparr>ip := ip s + 1,
                                          stack := hd vs # subject # iterator # rest,
                                          world := bind_names L names vs w\<rparr>))))
           | _ \<Rightarrow> Some (Inl Undefined))
      | NT_SET names e \<Rightarrow>
          (case template_eval L e (length names) (world s) of
             Inl f \<Rightarrow> Some (Inl f)
           | Inr (vs, w) \<Rightarrow>
               Some (Inr (s\<lparr>ip := ip s + 1, world := bind_names L names vs w\<rparr>)))
      | NT_INCLUDE e \<Rightarrow>
          (case template_eval L e 1 (world s) of
             Inl f \<Rightarrow> Some (Inl f)
           | Inr (vs, w) \<Rightarrow>
               (let filename = (if lua_isstring (hd vs) then c_str (lua_tostring (hd vs))
                                else ''('' @ luaL_typename (hd vs) @ '')'') in
                case include filename (s\<lparr>world := w\<rparr>) of
                  None \<Rightarrow> None
                | Some (Inl f) \<Rightarrow> Some (Inl f)
                | Some (Inr s') \<Rightarrow> Some (Inr (s'\<lparr>ip := ip s + 1\<rparr>))))
      | NT_SUB e sub_flags \<Rightarrow>
          (case template_eval L e 1 (world s) of
             Inl f \<Rightarrow> Some (Inl f)
           | Inr (vs, w) \<Rightarrow>
               (case sub_encode sub_flags (sub_string sub_flags (hd vs)) of
                  None \<Rightarrow> Some (Inl Undefined)
                | Some bytes \<Rightarrow>
                    Some (Inr (s\<lparr>ip := ip s + 1, world := w, out := out s @ bytes\<rparr>))))
      | NT_RAW raw \<Rightarrow> Some (Inr (s\<lparr>ip := ip s + 1, out := out s @ raw\<rparr>)))"

text \<open>The loop: it ends when \<open>i\<close> is not below the node count.\<close>

partial_function (option) render_loop ::
  "('e, 'w) lua_t \<Rightarrow> (string \<Rightarrow> 'w render_state \<Rightarrow> (failure + 'w render_state) option)
   \<Rightarrow> 'e node_t list \<Rightarrow> 'w render_state \<Rightarrow> (failure + 'w render_state) option" where
  "render_loop L include ns s =
     (if ip s < length ns then
        (case render_node L include (ns ! ip s) s of
           None \<Rightarrow> None
         | Some (Inl f) \<Rightarrow> Some (Inl f)
         | Some (Inr s') \<Rightarrow> render_loop L include ns s')
      else Some (Inr s))"

text \<open>
  \<^verbatim>\<open>template_render_template\<close>. \<open>templates\<close> gives the node list of the template of a file
  name (from the cache, or from \<^verbatim>\<open>template_parse\<close>), or the error of its compilation.
  \<open>fuel\<close> is \<open>TEMPLATE_MAX_DEPTH + 1 - depth\<close>: at depth \<open>TEMPLATE_MAX_DEPTH + 1\<close> the
  rendering is refused.
\<close>

fun template_render_template ::
  "('e, 'w) lua_t \<Rightarrow> (string \<Rightarrow> failure + 'e node_t list) \<Rightarrow> nat \<Rightarrow> string
   \<Rightarrow> 'w render_state \<Rightarrow> (failure + 'w render_state) option" where
  "template_render_template L templates 0 filename s =
     Some (Inl (Error ''template depth exceeds 8''))"
| "template_render_template L templates (Suc fuel) filename s =
     (case templates filename of
        Inl f \<Rightarrow> Some (Inl f)
      | Inr ns \<Rightarrow>
          render_loop L (template_render_template L templates fuel) ns (s\<lparr>ip := 0\<rparr>))"

definition template_render ::
  "('e, 'w) lua_t \<Rightarrow> (string \<Rightarrow> failure + 'e node_t list) \<Rightarrow> string \<Rightarrow> 'w
   \<Rightarrow> (failure + string) option" where
  "template_render L templates filename w =
     (case template_render_template L templates TEMPLATE_MAX_DEPTH filename
             \<lparr>ip = 0, stack = [], world = w, out = []\<rparr> of
        None \<Rightarrow> None
      | Some (Inl f) \<Rightarrow> Some (Inl f)
      | Some (Inr s) \<Rightarrow> Some (Inr (out s)))"

section \<open>Auxiliary definitions and example inputs\<close>

text \<open>\<open>names_ok\<close>: the name list of a \<^verbatim>\<open>NT_FOR_NEXT\<close> or \<^verbatim>\<open>NT_SET\<close> node is not empty.\<close>

definition names_ok :: "'e node_t \<Rightarrow> bool" where
  "names_ok n = (case n of NT_FOR_NEXT l t \<Rightarrow> l \<noteq> [] | NT_SET l e \<Rightarrow> l \<noteq> [] | _ \<Rightarrow> True)"

text \<open>
  Example inputs: the attributes \<^verbatim>\<open>names=" ," in="t"\<close>, and \<^verbatim>\<open>names=" ,"\<close> alone; a \<^verbatim>\<open>luaL_loadbufferx\<close> that
  compiles every chunk (to the reference 0); a Lua side whose expressions all evaluate to
  the string \<^verbatim>\<open><\<close>; an \<open>include\<close> without templates.
\<close>

definition blank_names_attrs :: "string \<Rightarrow> string option" where
  "blank_names_attrs k =
     (if k = ''names'' then Some '' ,'' else if k = ''in'' then Some ''t'' else None)"

definition names_only_attrs :: "string \<Rightarrow> string option" where
  "names_only_attrs k = (if k = ''names'' then Some '' ,'' else None)"

definition const_load :: "string \<Rightarrow> string + nat" where
  "const_load chunk = Inr 0"

definition example_lua :: "(nat, unit) lua_t" where
  "example_lua = \<lparr>lua_eval = (\<lambda>e w. Inr ([String ''<''], w)),
                   lua_call = (\<lambda>f args w. Inr ([], w)),
                   lua_setfield = (\<lambda>n v w. w)\<rparr>"

definition example_load :: "string \<Rightarrow> string + nat" where
  "example_load chunk = Inr 0"

definition no_include :: "string \<Rightarrow> unit render_state \<Rightarrow> (failure + unit render_state) option" where
  "no_include filename s = Some (Inl (Error ''no template''))"

section \<open>The invariant of the backpatching\<close>

text \<open>
  \<open>target\<close>: the index a node can send the interpreter to (\<^verbatim>\<open>jump_next\<close>, \<^verbatim>\<open>if_next\<close>,
  \<^verbatim>\<open>for_next_next\<close>); the other nodes have none.
\<close>

definition target :: "'e node_t \<Rightarrow> int option" where
  "target n = (case n of NT_JUMP t \<Rightarrow> Some t | NT_IF e t \<Rightarrow> Some t
               | NT_FOR_NEXT l t \<Rightarrow> Some t | _ \<Rightarrow> None)"

text \<open>
  The chain of an open \<^verbatim>\<open>if\<close> block as the closing loop of \<^verbatim>\<open>template_parse_if\<close> walks
  it: starting at the \<^verbatim>\<open>NT_IF\<close> node \<open>i\<close>, \<open>c\<close> times, \<open>if_next\<close> leads past a
  \<^verbatim>\<open>NT_JUMP\<close> node that is still unresolved to the next condition (or to the \<^verbatim>\<open>else\<close>
  body). The result is the list of these \<^verbatim>\<open>NT_JUMP\<close> nodes and the index reached.
\<close>

fun chain_jumps :: "'e node_t list \<Rightarrow> nat \<Rightarrow> nat \<Rightarrow> (nat list \<times> nat) option" where
  "chain_jumps ns i 0 = Some ([], i)"
| "chain_jumps ns i (Suc c) =
     (if i < length ns then
        (case ns ! i of
           NT_IF e nx \<Rightarrow>
             if int i + 1 < nx \<and> nx \<le> int (length ns) \<and> ns ! (nat nx - 1) = NT_JUMP (- 1) then
               (case chain_jumps ns (nat nx) c of
                  None \<Rightarrow> None
                | Some (js, f) \<Rightarrow> Some ((nat nx - 1) # js, f))
             else None
         | _ \<Rightarrow> None)
      else None)"

text \<open>
  \<open>skeleton ns b\<close>: the nodes of the open block \<open>b\<close> are where the block says, and the
  result is the set of the nodes of \<open>b\<close> whose target is still to be written: for an
  \<^verbatim>\<open>if\<close> block the jumps of its chain and, unless an \<^verbatim>\<open>else\<close> was seen, its last condition;
  for a \<^verbatim>\<open>for\<close> block its \<^verbatim>\<open>NT_FOR_NEXT\<close> node, which follows a \<^verbatim>\<open>NT_FOR_INIT\<close> node.
\<close>

definition skeleton :: "'e node_t list \<Rightarrow> block_t \<Rightarrow> nat set option" where
  "skeleton ns b =
     (case b of
        Block_IF if_start if_last if_count \<Rightarrow>
          if 0 \<le> if_start then
            (case chain_jumps ns (nat if_start) if_count of
               None \<Rightarrow> None
             | Some (js, f) \<Rightarrow>
                 if if_last = - 1 then
                   (if 0 < if_count \<and> f \<le> length ns then Some (set js) else None)
                 else if int f = if_last \<and> f < length ns
                         \<and> (case ns ! f of NT_IF e t \<Rightarrow> t = - 1 | _ \<Rightarrow> False)
                 then Some (insert f (set js)) else None)
          else None
      | Block_FOR_NEXT for_start \<Rightarrow>
          if 0 < for_start \<and> for_start < int (length ns)
             \<and> (case ns ! nat for_start of NT_FOR_NEXT l t \<Rightarrow> t = - 1 | _ \<Rightarrow> False)
             \<and> (case ns ! (nat for_start - 1) of NT_FOR_INIT e \<Rightarrow> True | _ \<Rightarrow> False)
          then Some {nat for_start} else None)"

definition block_start :: "block_t \<Rightarrow> nat" where
  "block_start b = (case b of Block_IF if_start if_last if_count \<Rightarrow> nat if_start
                    | Block_FOR_NEXT for_start \<Rightarrow> nat for_start)"

text \<open>
  \<open>stack_pending ns bs\<close>, for the block stack \<open>bs\<close> from the top down: every block has its
  skeleton, the blocks below the top one within the nodes before its start.
\<close>

fun stack_pending :: "'e node_t list \<Rightarrow> block_t list \<Rightarrow> nat set option" where
  "stack_pending ns [] = Some {}"
| "stack_pending ns (b # bs) =
     (case skeleton ns b of
        None \<Rightarrow> None
      | Some P \<Rightarrow>
          (case stack_pending (take (block_start b) ns) bs of
             None \<Rightarrow> None
           | Some Q \<Rightarrow> Some (P \<union> Q)))"

text \<open>
  \<open>resolved ns P\<close>: every target outside \<open>P\<close> lies between 0 and the number of nodes.
  \<open>parser_inv\<close> is the invariant of the parser state: the pending nodes are those of the
  open blocks, and all others are resolved.
\<close>

definition resolved :: "'e node_t list \<Rightarrow> nat set \<Rightarrow> bool" where
  "resolved ns P \<longleftrightarrow>
     (\<forall>x < length ns. \<forall>t. target (ns ! x) = Some t \<longrightarrow> x \<in> P \<or> (0 \<le> t \<and> t \<le> int (length ns)))"

definition parser_inv :: "'e parser_t \<Rightarrow> bool" where
  "parser_inv p \<longleftrightarrow>
     (case stack_pending (nodes p) (rev (blocks p)) of
        None \<Rightarrow> False
      | Some P \<Rightarrow> resolved (nodes p) P)"

text \<open>
  Example templates: \<^verbatim>\<open><l:if cond="x">a</l:if>\<close> and
  \<^verbatim>\<open><l:if cond="x">a<l:else/>b</l:if>\<close>, as the items the scanner hands to the handlers.
\<close>

definition cond_attrs :: "string \<Rightarrow> string option" where
  "cond_attrs k = (if k = ''cond'' then Some ''x'' else None)"

definition no_attrs :: "string \<Rightarrow> string option" where
  "no_attrs k = None"

definition if_items :: "item list" where
  "if_items = [Element ''if'' 1 cond_attrs, Raw ''a'', Element ''if'' 2 no_attrs]"

definition if_else_items :: "item list" where
  "if_else_items = [Element ''if'' 1 cond_attrs, Raw ''a'', Element ''else'' 3 no_attrs,
                    Raw ''b'', Element ''if'' 2 no_attrs]"

section \<open>Structured templates\<close>

text \<open>
  The vocabulary for the statements about loops and conditions. A compiled template is
  read back as a structured program: a sequence of leaves (the nodes \<^verbatim>\<open>NT_SET\<close>,
  \<^verbatim>\<open>NT_INCLUDE\<close>, \<^verbatim>\<open>NT_SUB\<close>, \<^verbatim>\<open>NT_RAW\<close>), of loops (an \<^verbatim>\<open>in\<close> expression, the names and
  a body) and of chains of conditions. A chain is a condition with its body, followed by
  nothing (\<open>Last\<close>), by an \<^verbatim>\<open>else\<close> body (\<open>LastElse\<close>), or by the chain of the next
  \<^verbatim>\<open>elseif\<close> (\<open>More\<close>).
\<close>

datatype 'e leaf = Leaf_SET "string list" 'e | Leaf_INCLUDE 'e | Leaf_SUB 'e nat | Leaf_RAW string

fun node_of :: "'e leaf \<Rightarrow> 'e node_t" where
  "node_of (Leaf_SET l e) = NT_SET l e"
| "node_of (Leaf_INCLUDE e) = NT_INCLUDE e"
| "node_of (Leaf_SUB e f) = NT_SUB e f"
| "node_of (Leaf_RAW r) = NT_RAW r"

datatype 'e prog =
    Done
  | Plain "'e leaf" "'e prog"
  | For 'e "string list" "'e prog" "'e prog"
  | Cond "'e chain" "'e prog"
and 'e chain =
    Last 'e "'e prog"
  | LastElse 'e "'e prog" "'e prog"
  | More 'e "'e prog" "'e chain"

text \<open>
  \<open>emit p a\<close> is the node list that \<^verbatim>\<open>template_parse\<close> produces for \<open>p\<close> when its first
  node has the index \<open>a\<close>, with every target written; \<open>psize\<close> and \<open>csize\<close> are the numbers
  of nodes. In \<open>emit_chain c a m\<close>, \<open>m\<close> is the index after the chain, the target of the
  jumps that end its bodies.
\<close>

fun psize :: "'e prog \<Rightarrow> nat" and csize :: "'e chain \<Rightarrow> nat" where
  "psize Done = 0"
| "psize (Plain n r) = 1 + psize r"
| "psize (For e l b r) = psize b + 3 + psize r"
| "psize (Cond c r) = csize c + psize r"
| "csize (Last e b) = 1 + psize b"
| "csize (LastElse e b eb) = psize b + 2 + psize eb"
| "csize (More e b c) = psize b + 2 + csize c"

fun emit :: "'e prog \<Rightarrow> nat \<Rightarrow> 'e node_t list"
  and emit_chain :: "'e chain \<Rightarrow> nat \<Rightarrow> nat \<Rightarrow> 'e node_t list" where
  "emit Done a = []"
| "emit (Plain n r) a = node_of n # emit r (a + 1)"
| "emit (For e l b r) a =
     NT_FOR_INIT e # NT_FOR_NEXT l (int (a + psize b + 3)) # emit b (a + 2)
       @ [NT_JUMP (int (a + 1))] @ emit r (a + psize b + 3)"
| "emit (Cond c r) a = emit_chain c a (a + csize c) @ emit r (a + csize c)"
| "emit_chain (Last e b) a m = NT_IF e (int m) # emit b (a + 1)"
| "emit_chain (LastElse e b eb) a m =
     NT_IF e (int (a + psize b + 2)) # emit b (a + 1) @ [NT_JUMP (int m)] @ emit eb (a + psize b + 2)"
| "emit_chain (More e b c) a m =
     NT_IF e (int (a + psize b + 2)) # emit b (a + 1) @ [NT_JUMP (int m)]
       @ emit_chain c (a + psize b + 2) m"

text \<open>\<open>seq p q\<close>: \<open>p\<close>, then \<open>q\<close>.\<close>

fun seq :: "'e prog \<Rightarrow> 'e prog \<Rightarrow> 'e prog" where
  "seq Done q = q"
| "seq (Plain n r) q = Plain n (seq r q)"
| "seq (For e l b r) q = For e l b (seq r q)"
| "seq (Cond c r) q = Cond c (seq r q)"

text \<open>
  The parser state in these terms. A frame stands for an open block of the block stack:
  the program completed before the element opened, and what the element has got so far
  (for an \<^verbatim>\<open>if\<close>: the branches closed by an \<^verbatim>\<open>elseif\<close> or \<^verbatim>\<open>else\<close>, and the condition of the
  branch in progress, \<open>None\<close> after \<^verbatim>\<open>else\<close>). \<open>emit_frame\<close> gives the nodes of a frame, with
  \<open>-1\<close> for the targets still to be written; \<open>block_of\<close> gives its block.
  \<open>parse_state p fs cur\<close>: the nodes and blocks of \<open>p\<close> are those of the frames \<open>fs\<close>
  (outermost first) followed by the program \<open>cur\<close> in progress.
\<close>

datatype 'e frame = FFor "'e prog" 'e "string list" | FIf "'e prog" "('e \<times> 'e prog) list" "'e option"

fun bsize :: "('e \<times> 'e prog) list \<Rightarrow> nat" where
  "bsize [] = 0"
| "bsize ((e, b) # brs) = psize b + 2 + bsize brs"

fun emit_branches :: "('e \<times> 'e prog) list \<Rightarrow> nat \<Rightarrow> int \<Rightarrow> 'e node_t list" where
  "emit_branches [] a j = []"
| "emit_branches ((e, b) # brs) a j =
     NT_IF e (int (a + psize b + 2)) # emit b (a + 1) @ [NT_JUMP j]
       @ emit_branches brs (a + psize b + 2) j"


fun fsize :: "'e frame \<Rightarrow> nat" where
  "fsize (FFor pre e l) = psize pre + 2"
| "fsize (FIf pre brs c) = psize pre + bsize brs + (case c of None \<Rightarrow> 0 | Some e \<Rightarrow> 1)"

fun emit_frame :: "'e frame \<Rightarrow> nat \<Rightarrow> 'e node_t list" where
  "emit_frame (FFor pre e l) a = emit pre a @ [NT_FOR_INIT e, NT_FOR_NEXT l (- 1)]"
| "emit_frame (FIf pre brs c) a =
     emit pre a @ emit_branches brs (a + psize pre) (- 1)
       @ (case c of None \<Rightarrow> [] | Some e \<Rightarrow> [NT_IF e (- 1)])"

fun block_of :: "'e frame \<Rightarrow> nat \<Rightarrow> block_t" where
  "block_of (FFor pre e l) a = Block_FOR_NEXT (int (a + psize pre + 1))"
| "block_of (FIf pre brs c) a =
     Block_IF (int (a + psize pre))
       (case c of None \<Rightarrow> - 1 | Some e \<Rightarrow> int (a + psize pre + bsize brs)) (length brs)"


fun osize :: "'e frame list \<Rightarrow> nat" where
  "osize [] = 0"
| "osize (f # fs) = fsize f + osize fs"

fun emit_open :: "'e frame list \<Rightarrow> nat \<Rightarrow> 'e node_t list" where
  "emit_open [] a = []"
| "emit_open (f # fs) a = emit_frame f a @ emit_open fs (a + fsize f)"

fun blocks_of :: "'e frame list \<Rightarrow> nat \<Rightarrow> block_t list" where
  "blocks_of [] a = []"
| "blocks_of (f # fs) a = block_of f a # blocks_of fs (a + fsize f)"



text \<open>
  What rendering a structured program means, in the words of the description of the
  elements; the states are those of the interpreter, and each rule leaves \<open>i\<close> where the
  interpreter is then.
  \<^item> \<open>exec\<close>: a leaf is rendered by \<open>render_node\<close>; a loop evaluates its \<^verbatim>\<open>in\<close>
    expression to the iterator function, the subject and the control value, then runs
    \<open>for_loop\<close>; a chain runs \<open>chain_run\<close>.
  \<^item> \<open>for_loop names b K\<close>: the iterator is called with the subject and the control
    value; when its first result is nil the three values are dropped and the loop is
    over (\<open>K = 0\<close>); otherwise the results, adjusted to the number of names, are bound
    to the names, the first result is the new control value, the body \<open>b\<close> is rendered
    once, and the loop goes on for \<open>K\<close> further items.
  \<^item> \<open>chain_run\<close>: the first condition is evaluated; when it is truthy its body is
    rendered and the chain is over; otherwise the \<^verbatim>\<open>else\<close> body is rendered, or the rest of
    the chain runs, or (no \<^verbatim>\<open>else\<close>, no further condition) nothing is rendered.
\<close>

fun chain_cond :: "'e chain \<Rightarrow> 'e" where
  "chain_cond (Last e b) = e"
| "chain_cond (LastElse e b eb) = e"
| "chain_cond (More e b c) = e"

fun chain_body :: "'e chain \<Rightarrow> 'e prog" where
  "chain_body (Last e b) = b"
| "chain_body (LastElse e b eb) = b"
| "chain_body (More e b c) = b"

inductive exec ::
    "('e, 'w) lua_t \<Rightarrow> (string \<Rightarrow> 'w render_state \<Rightarrow> (failure + 'w render_state) option)
     \<Rightarrow> 'e prog \<Rightarrow> 'w render_state \<Rightarrow> 'w render_state \<Rightarrow> bool"
  and for_loop ::
    "('e, 'w) lua_t \<Rightarrow> (string \<Rightarrow> 'w render_state \<Rightarrow> (failure + 'w render_state) option)
     \<Rightarrow> string list \<Rightarrow> 'e prog \<Rightarrow> nat \<Rightarrow> 'w render_state \<Rightarrow> 'w render_state \<Rightarrow> bool"
  and chain_run ::
    "('e, 'w) lua_t \<Rightarrow> (string \<Rightarrow> 'w render_state \<Rightarrow> (failure + 'w render_state) option)
     \<Rightarrow> 'e chain \<Rightarrow> 'w render_state \<Rightarrow> 'w render_state \<Rightarrow> bool"
  for L :: "('e, 'w) lua_t"
  and inc :: "string \<Rightarrow> 'w render_state \<Rightarrow> (failure + 'w render_state) option"
where
  exec_Done: "exec L inc Done s s"
| exec_Plain:
    "render_node L inc (node_of n) s = Some (Inr s1) \<Longrightarrow> exec L inc r s1 s'
     \<Longrightarrow> exec L inc (Plain n r) s s'"
| exec_For:
    "template_eval L e 3 (world s) = Inr (vs, w)
     \<Longrightarrow> for_loop L inc names b K (s\<lparr>ip := ip s + 1, stack := rev vs @ stack s, world := w\<rparr>) s1
     \<Longrightarrow> exec L inc r s1 s'
     \<Longrightarrow> exec L inc (For e names b r) s s'"
| exec_Cond:
    "chain_run L inc c s s1 \<Longrightarrow> exec L inc r s1 s'
     \<Longrightarrow> exec L inc (Cond c r) s s'"
| for_nil:
    "stack s = control # subject # iterator # rest \<Longrightarrow> names \<noteq> []
     \<Longrightarrow> lua_call L iterator [subject, control] (world s) = Inr (rs, w)
     \<Longrightarrow> lua_isnil (hd (adjust (length names) rs))
     \<Longrightarrow> for_loop L inc names b 0 s (s\<lparr>ip := ip s + psize b + 2, stack := rest, world := w\<rparr>)"
| for_item:
    "stack s = control # subject # iterator # rest \<Longrightarrow> names \<noteq> []
     \<Longrightarrow> lua_call L iterator [subject, control] (world s) = Inr (rs, w)
     \<Longrightarrow> vs = adjust (length names) rs
     \<Longrightarrow> \<not> lua_isnil (hd vs)
     \<Longrightarrow> exec L inc b
           (s\<lparr>ip := ip s + 1, stack := hd vs # subject # iterator # rest,
              world := bind_names L names vs w\<rparr>) s1
     \<Longrightarrow> for_loop L inc names b K (s1\<lparr>ip := ip s\<rparr>) s'
     \<Longrightarrow> for_loop L inc names b (Suc K) s s'"
| chain_hit:
    "template_eval L (chain_cond c) 1 (world s) = Inr (vs, w) \<Longrightarrow> lua_toboolean (hd vs)
     \<Longrightarrow> exec L inc (chain_body c) (s\<lparr>ip := ip s + 1, world := w\<rparr>) s1
     \<Longrightarrow> chain_run L inc c s (s1\<lparr>ip := ip s + csize c\<rparr>)"
| chain_none:
    "template_eval L e 1 (world s) = Inr (vs, w) \<Longrightarrow> \<not> lua_toboolean (hd vs)
     \<Longrightarrow> chain_run L inc (Last e b) s (s\<lparr>ip := ip s + csize (Last e b), world := w\<rparr>)"
| chain_else:
    "template_eval L e 1 (world s) = Inr (vs, w) \<Longrightarrow> \<not> lua_toboolean (hd vs)
     \<Longrightarrow> exec L inc eb (s\<lparr>ip := ip s + psize b + 2, world := w\<rparr>) s1
     \<Longrightarrow> chain_run L inc (LastElse e b eb) s s1"
| chain_next:
    "template_eval L e 1 (world s) = Inr (vs, w) \<Longrightarrow> \<not> lua_toboolean (hd vs)
     \<Longrightarrow> chain_run L inc c (s\<lparr>ip := ip s + psize b + 2, world := w\<rparr>) s1
     \<Longrightarrow> chain_run L inc (More e b c) s s1"

text \<open>
  \<open>steps L include ns s s'\<close>: the loop of \<^verbatim>\<open>template_render_template\<close> gets from the state
  \<open>s\<close> to the state \<open>s'\<close> in a number of rounds, none of which fails.
\<close>

inductive steps ::
    "('e, 'w) lua_t \<Rightarrow> (string \<Rightarrow> 'w render_state \<Rightarrow> (failure + 'w render_state) option)
     \<Rightarrow> 'e node_t list \<Rightarrow> 'w render_state \<Rightarrow> 'w render_state \<Rightarrow> bool"
  for L :: "('e, 'w) lua_t"
  and inc :: "string \<Rightarrow> 'w render_state \<Rightarrow> (failure + 'w render_state) option"
  and ns :: "'e node_t list"
where
  steps_refl: "steps L inc ns s s"
| steps_step:
    "ip s < length ns \<Longrightarrow> render_node L inc (ns ! ip s) s = Some (Inr s1)
     \<Longrightarrow> steps L inc ns s1 s' \<Longrightarrow> steps L inc ns s s'"





section \<open>Properties of the associative array\<close>

subsection \<open>The load threshold\<close>

lemma unat_table_load:
  "unat (table_load a) = unat a div 2 + unat a div 4 + unat a div 8"
proof -
  have b: "unat a < 2 ^ 64" using unsigned_less [of a, where 'a = nat] by simp
  have d1: "unat (drop_bit 1 a) = unat a div 2" by (simp add: drop_bit_eq_div unat_div)
  have d2: "unat (drop_bit 2 a) = unat a div 4" by (simp add: drop_bit_eq_div unat_div)
  have d3: "unat (drop_bit 3 a) = unat a div 8" by (simp add: drop_bit_eq_div unat_div)
  have s1: "unat (drop_bit 1 a + drop_bit 2 a) = unat a div 2 + unat a div 4"
    using b unat_add_lem [of "drop_bit 1 a" "drop_bit 2 a"] unfolding d1 d2 by (simp, arith)
  have s2: "unat (drop_bit 1 a + drop_bit 2 a + drop_bit 3 a)
      = unat a div 2 + unat a div 4 + unat a div 8"
    using b unat_add_lem [of "drop_bit 1 a + drop_bit 2 a" "drop_bit 3 a"]
    unfolding s1 d3 by (simp, arith)
  show ?thesis unfolding table_load_def by (rule s2)
qed

lemma three_shifts_bounds:
  "(n::nat) div 2 + n div 4 + n div 8 \<le> n * 7 div 8
   \<and> n * 7 div 8 \<le> n div 2 + n div 4 + n div 8 + 2"
  by arith

lemma table_load_3: "table_load 3 = 1"
  by (simp add: table_load_def drop_bit_eq_div)

lemma table_sizes_0: "table_sizes ! 0 = 3"
  unfolding table_sizes_def by (rule nth_Cons_0)

text \<open>
  C6, as stated, fails: the first table size is 3, its load threshold is
  \<open>1 + 0 + 0 = 1\<close>, and \<open>\<lfloor>3 * 7 / 8\<rfloor> = 2\<close>.
\<close>

theorem table_load_counterexample:
  "unat (table_load (table_sizes ! 0)) = 1 \<and> unat (table_sizes ! 0) * 7 div 8 = 2"
  unfolding table_sizes_0 table_load_3 by simp

text \<open>
  C6, amended: for every capacity (so for every table size) the load threshold is the sum
  \<open>capacity div 2 + capacity div 4 + capacity div 8\<close> of the three truncating divisions,
  computed without wrap-around; it is at most \<open>\<lfloor>capacity * 7 / 8\<rfloor>\<close> and falls short
  of it by at most 2.
\<close>

theorem table_load_value:
  "unat (table_load a) = unat a div 2 + unat a div 4 + unat a div 8
   \<and> unat (table_load a) \<le> unat a * 7 div 8
   \<and> unat a * 7 div 8 \<le> unat (table_load a) + 2"
  unfolding unat_table_load using three_shifts_bounds [of "unat a"] by simp


subsection \<open>Sizing at creation\<close>

lemma table_size_search_inv:
  "0 \<le> lower \<Longrightarrow> upper < 112 \<Longrightarrow> lower \<le> upper + 1
   \<Longrightarrow> (upper = 111 \<or> sz \<le> table_sizes ! nat (upper + 1))
   \<Longrightarrow> 0 \<le> table_size_search sz lower upper
       \<and> (table_size_search sz lower upper < 112
            \<longrightarrow> sz \<le> table_sizes ! nat (table_size_search sz lower upper))"
proof (induction sz lower upper rule: table_size_search.induct)
  case (1 sz lower upper)
  show ?case
  proof (cases "lower \<le> upper")
    case False
    have e: "table_size_search sz lower upper = lower"
      using False by (subst table_size_search.simps) simp
    from False "1.prems" have "lower = upper + 1" by simp
    with "1.prems" show ?thesis unfolding e by auto
  next
    case True
    define mid where "mid = (lower + upper) div 2"
    have m: "lower \<le> mid" "mid \<le> upper" using True by (auto simp: mid_def)
    show ?thesis
    proof (cases "table_sizes ! nat mid < sz")
      case lt: True
      have "0 \<le> table_size_search sz (mid + 1) upper
       \<and> (table_size_search sz (mid + 1) upper < 112
            \<longrightarrow> sz \<le> table_sizes ! nat (table_size_search sz (mid + 1) upper))"
        using "1.IH"(1) [OF True mid_def lt] "1.prems" m by simp
      then show ?thesis using True lt
        by (simp add: table_size_search.simps [of sz lower upper] mid_def Let_def)
    next
      case ge: False
      have u: "mid - 1 + 1 = mid" by simp
      have "0 \<le> table_size_search sz lower (mid - 1)
       \<and> (table_size_search sz lower (mid - 1) < 112
            \<longrightarrow> sz \<le> table_sizes ! nat (table_size_search sz lower (mid - 1)))"
        using "1.IH"(2) [OF True mid_def ge] "1.prems" m ge unfolding u by simp
      then show ?thesis using True ge
        by (simp add: table_size_search.simps [of sz lower upper] mid_def Let_def)
    qed
  qed
qed

lemma table_size_ge: "table_size sz \<noteq> - 1 \<Longrightarrow> sz \<le> table_size sz"
  using table_size_search_inv [of 0 111 sz]
  by (simp add: table_size_def table_sizes_n_def Let_def split: if_splits)


lemma table_sizes_last: "table_sizes ! nat (table_sizes_n - 1) = 272513087380099"
  by (simp add: table_sizes_n_def table_sizes_def)

lemma headroom_arith:
  "(l::nat) + l div 7 + 3 \<le> p \<Longrightarrow> l \<le> p div 2 + p div 4 + p div 8"
  by arith

lemma table_create_load:
  assumes c: "table_create c1 c2 ld = Some (t :: 'v table_t)"
    and lt: "ld < table_sizes ! nat (table_sizes_n - 1)"
  shows "ld \<le> load t" and "count t = 0"
proof -
  define a where "a = ld + (ld div 7 + 3)"
  have l: "unat ld < 272513087380099"
    using lt unfolding table_sizes_last by (simp add: word_less_nat_alt)
  have d: "unat (ld div 7) = unat ld div 7" by (simp add: unat_div)
  have d3: "unat (ld div 7 + 3) = unat ld div 7 + 3"
    using l unat_add_lem [of "ld div 7" 3] unfolding d by (simp, arith)
  have ua: "unat a = unat ld + unat ld div 7 + 3"
    using l unat_add_lem [of ld "ld div 7 + 3"] unfolding a_def d3 by (simp, arith)
  from c lt have ne: "table_size a \<noteq> - 1" and t: "alloc t = table_size a"
      "load t = table_load (table_size a)" "count t = 0"
    by (auto simp: table_create_def a_def Let_def split: if_splits)
  have "a \<le> table_size a" using ne by (rule table_size_ge)
  then have "unat a \<le> unat (table_size a)" by (simp add: word_le_nat_alt)
  then have "unat ld \<le> unat (table_load (table_size a))"
    unfolding unat_table_load ua by (rule headroom_arith)
  then show "ld \<le> load t" by (simp add: t word_le_nat_alt)
  show "count t = 0" by (rule t)
qed


lemma table_insert_fields:
  "table_insert t h = Some (i, t')
   \<Longrightarrow> alloc t' = alloc t \<and> load t' = load t \<and> count t' = count t \<and> dup t' = dup t"
  by (auto simp: table_insert_def Let_def split: option.splits prod.splits if_splits)

lemma table_set_no_rehash:
  assumes s: "table_set c s t k (Some x) = Some (rc, t')" and ne: "count t \<noteq> load t"
  shows "alloc t' = alloc t \<and> load t' = load t \<and> (count t' = count t \<or> count t' = count t + 1)"
proof -
  from s obtain found where f: "table_find t k (table_hash t k) = Some found"
    by (auto simp: table_set_def Let_def split: option.splits)
  show ?thesis
  proof (cases found)
    case (Some i)
    with s f show ?thesis by (auto simp: table_set_def Let_def)
  next
    case None
    with s f ne obtain i t2 where ins: "table_insert t (table_hash t k) = Some (i, t2)"
      by (auto simp: table_set_def Let_def split: option.splits)
    from table_insert_fields [OF ins] s f None ne ins show ?thesis
      by (auto simp: table_set_def Let_def split: if_splits)
  qed
qed

lemma unat_Suc_le: "unat ((w :: 64 word) + 1) \<le> unat w + 1"
proof -
  have "unat (w + 1) = (unat w + 1) mod 2 ^ 64" by (simp add: unat_word_ariths)
  also have "\<dots> \<le> unat w + 1" by (rule mod_less_eq_dividend)
  finally show ?thesis .
qed

lemma inserted_no_rehash:
  "inserted t0 n t \<Longrightarrow> n \<le> unat (load t0) \<Longrightarrow> count t0 = 0
   \<Longrightarrow> alloc t = alloc t0 \<and> load t = load t0 \<and> unat (count t) \<le> n"
proof (induction rule: inserted.induct)
  case inserted_0
  then show ?case by simp
next
  case (inserted_Suc n t calloc_ok strdup_ok k x rc t')
  then have ih: "alloc t = alloc t0" "load t = load t0" "unat (count t) \<le> n" by simp_all
  with inserted_Suc.prems have "unat (count t) \<noteq> unat (load t)" by simp
  then have ne: "count t \<noteq> load t" by auto
  from table_set_no_rehash [OF inserted_Suc.hyps(2) ne] ih unat_Suc_le [of "count t"]
  show ?case by auto
qed


lemma hash_a: "\<not> ci t \<Longrightarrow> table_hash t ''a'' = 12638187200555641996"
  by (simp add: table_hash_def char_u64_def)

lemma hash_b: "\<not> ci t \<Longrightarrow> table_hash t ''b'' = 12638190499090526629"
  by (simp add: table_hash_def char_u64_def)

lemma table_size_5: "table_size 5 = 5"
  by (simp add: table_size_def table_sizes_n_def table_sizes_def table_size_search.simps)

lemma replicate_5: "replicate 5 x = [x, x, x, x, x]"
  by (simp add: eval_nat_numeral)

lemma table_load_5: "table_load 5 = 3"
  by (simp add: table_load_def drop_bit_eq_div)

lemma create_t5: "table_create True True 2 = Some t5"
  unfolding table_create_def table_sizes_last
  by (simp add: table_size_5 table_load_5 t5_def replicate_5)

lemma set_t5_a: "table_set True True t5 ''a'' (Some 1) = Some (0, t5_a)"
  by (simp add: table_set_def hash_a t5_def t5_a_def entry_a_def zero_entry_def table_find_def
      table_find_loop.simps table_insert_def worst_case.simps)

text \<open>
  C9: when \<^verbatim>\<open>table_create(expected_load)\<close> succeeds for an \<open>expected_load\<close> below the
  largest table size, the load threshold of the table is at least \<open>expected_load\<close>; and
  after any \<open>n \<le> expected_load\<close> insertions into it the capacity and the threshold are
  those of the fresh table and the count is at most \<open>n\<close>, so that each of the first
  \<open>expected_load\<close> insertions finds \<open>count \<noteq> load\<close>: the test that guards
  \<^verbatim>\<open>table_rehash\<close> in \<^verbatim>\<open>table_set\<close> fails, and no rehash is triggered.
\<close>

theorem table_create_no_rehash:
  assumes "table_create c1 c2 ld = Some (t0 :: 'v table_t)"
    and "ld < table_sizes ! nat (table_sizes_n - 1)"
  shows "ld \<le> load t0
    \<and> (\<forall>n t. inserted t0 n t \<longrightarrow> n \<le> unat ld \<longrightarrow>
          alloc t = alloc t0 \<and> load t = load t0 \<and> unat (count t) \<le> n
          \<and> (n < unat ld \<longrightarrow> count t \<noteq> load t))"
proof -
  have l: "ld \<le> load t0" and c: "count t0 = 0"
    using table_create_load [OF assms] by simp_all
  have ul: "unat ld \<le> unat (load t0)" using l by (simp add: word_le_nat_alt)
  have "alloc t = alloc t0 \<and> load t = load t0 \<and> unat (count t) \<le> n
          \<and> (n < unat ld \<longrightarrow> count t \<noteq> load t)"
    if i: "inserted t0 n t" and n: "n \<le> unat ld" for n t
  proof -
    from n ul have "n \<le> unat (load t0)" by simp
    from inserted_no_rehash [OF i this c]
    have r: "alloc t = alloc t0" "load t = load t0" "unat (count t) \<le> n" by simp_all
    have "count t \<noteq> load t" if "n < unat ld"
    proof
      assume "count t = load t"
      with r have "unat (load t0) \<le> n" by simp
      with that ul show False by simp
    qed
    with r show ?thesis by simp
  qed
  with l show ?thesis by blast
qed

theorem table_create_no_rehash_witness:
  "table_create True True 2 = Some t5 \<and> (2 :: 64 word) < table_sizes ! nat (table_sizes_n - 1)
   \<and> 2 \<le> load t5 \<and> inserted t5 1 t5_a
   \<and> alloc t5_a = alloc t5 \<and> load t5_a = load t5 \<and> unat (count t5_a) \<le> 1
   \<and> count t5_a \<noteq> load t5_a"
proof -
  have lt: "(2 :: 64 word) < table_sizes ! nat (table_sizes_n - 1)"
    unfolding table_sizes_last by simp
  have i: "inserted t5 1 t5_a"
    using inserted_Suc [OF inserted_0 set_t5_a] by simp
  from table_create_no_rehash [OF create_t5 lt] i create_t5 lt show ?thesis by force
qed

subsection \<open>Lookup after removal; a failed rehash\<close>

lemma replicate_3: "replicate 3 x = [x, x, x]"
  by (simp add: eval_nat_numeral)

lemma table_size_3: "table_size 3 = 3"
  by (simp add: table_size_def table_sizes_n_def table_sizes_def table_size_search.simps)

lemma create_t3: "table_create True True 0 = Some t3"
  unfolding table_create_def table_sizes_last
  by (simp add: table_size_3 table_load_3 t3_def replicate_3)

lemma set_t3_a: "table_set True True t3 ''a'' (Some 1) = Some (0, t3_a)"
  by (simp add: table_set_def hash_a t3_def t3_a_def entry_a_def zero_entry_def table_find_def
      table_find_loop.simps table_insert_def worst_case.simps)

lemma remove_t3_a: "table_set True True t3_a ''a'' None = Some (0, t3_a_removed)"
  by (simp add: table_set_def hash_a t3_def t3_a_def t3_a_removed_def entry_a_def zero_entry_def
      table_find_def table_find_loop.simps table_remove_def key_equal_def)

lemma get_t3_a_removed: "table_get t3_a_removed ''a'' = Some (Some 1)"
  by (simp add: table_get_def hash_a t3_def t3_a_removed_def entry_a_def zero_entry_def
      table_find_def table_find_loop.simps key_equal_def)

text \<open>
  C1 is broken by the code: \<^verbatim>\<open>table_find\<close> compares every entry that is not unused, so
  it returns an entry that \<^verbatim>\<open>table_remove\<close> has marked deleted. With the table of
  \<^verbatim>\<open>table_create(0)\<close>, after \<^verbatim>\<open>table_set(t, "a", v)\<close> and \<^verbatim>\<open>table_set(t, "a", NULL)\<close>
  the call \<^verbatim>\<open>table_get(t, "a")\<close> returns \<open>v\<close>, not NULL.
\<close>

theorem table_get_after_remove:
  "table_create True True 0 = Some t3
   \<and> table_set True True t3 ''a'' (Some 1) = Some (0, t3_a)
   \<and> table_set True True t3_a ''a'' None = Some (0, t3_a_removed)
   \<and> table_get t3_a_removed ''a'' = Some (Some 1)"
  using create_t3 set_t3_a remove_t3_a get_t3_a_removed by simp

lemma find_b_t3_a: "table_find t3_a ''b'' (table_hash t3_a ''b'') = Some None"
  by (simp add: hash_b t3_def t3_a_def entry_a_def zero_entry_def
      table_find_def table_find_loop.simps key_equal_def)

text \<open>
  C8: when the \<^verbatim>\<open>calloc\<close> of \<^verbatim>\<open>table_rehash\<close> fails, the rehash returns \<open>-1\<close> and the
  table is the one it was given, field by field; and a \<^verbatim>\<open>table_set\<close> of a new key that
  needs that rehash returns \<open>-1\<close> with the table unchanged.
\<close>

theorem table_rehash_alloc_failure:
  "table_rehash False t a = Some (- 1, t)
   \<and> (table_find t k (table_hash t k) = Some None \<longrightarrow> count t = load t
        \<longrightarrow> table_set False strdup_ok t k (Some x) = Some (- 1, t))"
  by (simp add: table_rehash_def table_set_def Let_def)

theorem table_rehash_alloc_failure_witness:
  "table_find t3_a ''b'' (table_hash t3_a ''b'') = Some None \<and> count t3_a = load t3_a
   \<and> table_rehash False t3_a (alloc t3_a + 1) = Some (- 1, t3_a)
   \<and> table_set False True t3_a ''b'' (Some 2) = Some (- 1, t3_a)"
proof -
  have c: "count t3_a = load t3_a" by (simp add: t3_a_def t3_def)
  from table_rehash_alloc_failure [of t3_a "alloc t3_a + 1" "''b''" True 2] find_b_t3_a c
  show ?thesis by simp
qed

subsection \<open>The relocation scan of \<^verbatim>\<open>table_insert\<close>\<close>

lemma move_scan_iff:
  "hm = (p + m * qm) mod a
   \<Longrightarrow> move_scan es a lw len qm hm m = Some (hn, k)
       \<longleftrightarrow> m \<le> k \<and> hn = (p + k * qm) mod a \<and> state (es ! hn) \<noteq> TES_SET
           \<and> (\<forall>j. m \<le> j \<and> j < k
                 \<longrightarrow> state (es ! ((p + j * qm) mod a)) = TES_SET \<and> len + j < lw - 1)"
proof (induction es a lw len qm hm m rule: move_scan.induct)
  case (1 es a lw len qm hm m)
  let ?R = "\<lambda>m. m \<le> k \<and> hn = (p + k * qm) mod a \<and> state (es ! hn) \<noteq> TES_SET
           \<and> (\<forall>j. m \<le> j \<and> j < k
                 \<longrightarrow> state (es ! ((p + j * qm) mod a)) = TES_SET \<and> len + j < lw - 1)"
  note hm = "1.prems"
  show ?case
  proof (cases "state (es ! hm) \<noteq> TES_SET")
    case True
    then have ms: "move_scan es a lw len qm hm m = Some (hm, m)"
      by (simp add: move_scan.simps [of es a lw len qm hm m])
    have "?R m \<longleftrightarrow> (hn, k) = (hm, m)"
    proof
      assume r: "?R m"
      have "k = m"
      proof (rule ccontr)
        assume "k \<noteq> m"
        with r have "m \<le> m \<and> m < k" by simp
        with r have "state (es ! ((p + m * qm) mod a)) = TES_SET" by blast
        with True hm show False by simp
      qed
      with r hm show "(hn, k) = (hm, m)" by auto
    next
      assume "(hn, k) = (hm, m)"
      with True hm show "?R m" by auto
    qed
    with ms show ?thesis by auto
  next
    case False
    then have set: "state (es ! ((p + m * qm) mod a)) = TES_SET" using hm by simp
    show ?thesis
    proof (cases "lw - 1 \<le> len + m")
      case True
      with False have ms: "move_scan es a lw len qm hm m = None"
        by (simp add: move_scan.simps [of es a lw len qm hm m])
      have "\<not> ?R m"
      proof
        assume r: "?R m"
        show False
        proof (cases "k = m")
          case True
          with r have "state (es ! ((p + m * qm) mod a)) \<noteq> TES_SET" by blast
          with set show False by simp
        next
          case False
          with r have "m \<le> m \<and> m < k" by simp
          with r have "len + m < lw - 1" by blast
          with True show False by simp
        qed
      qed
      with ms show ?thesis by simp
    next
      case go: False
      have "((p + m * qm) mod a + qm) mod a = (p + m * qm + qm) mod a"
        by (rule mod_add_left_eq)
      also have "p + m * qm + qm = p + (m + 1) * qm" by simp
      finally have hm': "(hm + qm) mod a = (p + (m + 1) * qm) mod a"
        unfolding hm .
      from False go have ms: "move_scan es a lw len qm hm m
          = move_scan es a lw len qm ((hm + qm) mod a) (m + 1)"
        by (simp add: move_scan.simps [of es a lw len qm hm m])
      have ih: "move_scan es a lw len qm ((hm + qm) mod a) (m + 1) = Some (hn, k) \<longleftrightarrow> ?R (m + 1)"
        using False go by (intro "1.IH" hm') simp_all
      have "?R (m + 1) \<longleftrightarrow> ?R m"
      proof
        assume r: "?R (m + 1)"
        have "\<forall>j. m \<le> j \<and> j < k
                 \<longrightarrow> state (es ! ((p + j * qm) mod a)) = TES_SET \<and> len + j < lw - 1"
        proof (intro allI impI)
          fix j
          assume j: "m \<le> j \<and> j < k"
          show "state (es ! ((p + j * qm) mod a)) = TES_SET \<and> len + j < lw - 1"
          proof (cases "j = m")
            case True
            with set go show ?thesis by simp
          next
            case False
            with j have "m + 1 \<le> j \<and> j < k" by simp
            with r show ?thesis by blast
          qed
        qed
        with r show "?R m" by auto
      next
        assume r: "?R m"
        have "k \<noteq> m"
        proof
          assume "k = m"
          with r have "state (es ! ((p + m * qm) mod a)) \<noteq> TES_SET" by blast
          with set show False by simp
        qed
        with r have "m + 1 \<le> k" by simp
        with r show "?R (m + 1)" by auto
      qed
      with ms ih show ?thesis by simp
    qed
  qed
qed

lemma candidate_at_admitted:
  assumes "1 \<le> len" and "len < lw - 1"
  shows "candidate_at es a lw h q len = Some (hn, k) \<longleftrightarrow> admitted es a lw h q len hn k"
proof -
  define p where "p = chain_pos a h q len"
  define qm where "qm = unat (hash (es ! p)) mod (a - 2) + 1"
  have c: "candidate_at es a lw h q len = move_scan es a lw len qm ((p + qm) mod a) 1"
    by (simp add: candidate_at_def p_def qm_def Let_def)
  have oc: "own_chain es a h q len j = (p + j * qm) mod a" for j
    by (simp add: own_chain_def p_def qm_def Let_def)
  have "(p + qm) mod a = (p + 1 * qm) mod a" by simp
  from move_scan_iff [OF this]
  have m: "candidate_at es a lw h q len = Some (hn, k)
      \<longleftrightarrow> 1 \<le> k \<and> hn = (p + k * qm) mod a \<and> state (es ! hn) \<noteq> TES_SET
           \<and> (\<forall>j. 1 \<le> j \<and> j < k
                 \<longrightarrow> state (es ! ((p + j * qm) mod a)) = TES_SET \<and> len + j < lw - 1)"
    unfolding c .
  have b: "(\<forall>j. 1 \<le> j \<and> j < k \<longrightarrow> state (es ! ((p + j * qm) mod a)) = TES_SET \<and> len + j < lw - 1)
      \<longleftrightarrow> len + k \<le> lw - 1 \<and> (\<forall>j \<in> {1..<k}. state (es ! ((p + j * qm) mod a)) = TES_SET)"
    if k: "1 \<le> k"
  proof
    assume r: "\<forall>j. 1 \<le> j \<and> j < k
        \<longrightarrow> state (es ! ((p + j * qm) mod a)) = TES_SET \<and> len + j < lw - 1"
    have "len + k \<le> lw - 1"
    proof (cases "k = 1")
      case True
      with assms show ?thesis by simp
    next
      case False
      with k have "1 \<le> k - 1 \<and> k - 1 < k" by simp
      with r have "len + (k - 1) < lw - 1" by blast
      then show ?thesis by simp
    qed
    with r show "len + k \<le> lw - 1 \<and> (\<forall>j \<in> {1..<k}. state (es ! ((p + j * qm) mod a)) = TES_SET)"
      by simp
  next
    assume r: "len + k \<le> lw - 1 \<and> (\<forall>j \<in> {1..<k}. state (es ! ((p + j * qm) mod a)) = TES_SET)"
    show "\<forall>j. 1 \<le> j \<and> j < k
        \<longrightarrow> state (es ! ((p + j * qm) mod a)) = TES_SET \<and> len + j < lw - 1"
    proof (intro allI impI)
      fix j
      assume j: "1 \<le> j \<and> j < k"
      with r have "state (es ! ((p + j * qm) mod a)) = TES_SET" by simp
      moreover from j r have "len + j < lw - 1" by simp
      ultimately show "state (es ! ((p + j * qm) mod a)) = TES_SET \<and> len + j < lw - 1" ..
    qed
  qed
  show ?thesis
    unfolding m admitted_def oc using b by auto
qed

lemma chain_pos_step:
  assumes "1 \<le> len"
  shows "(chain_pos a h q len + q) mod a = chain_pos a h q (len + 1)"
proof -
  have e: "h + (len - 1) * q + q = h + len * q" using assms by (cases len) simp_all
  have "(chain_pos a h q len + q) mod a = (h + (len - 1) * q + q) mod a"
    unfolding chain_pos_def by (rule mod_add_left_eq)
  also have "\<dots> = (h + len * q) mod a" by (simp only: e)
  finally show ?thesis by (simp add: chain_pos_def)
qed


lemma chain_pos_period:
  assumes "a < len"
  shows "chain_pos a h q (len - a) = chain_pos a h q len"
proof -
  have e: "len - 1 = (len - a - 1) + a" using assms by simp
  have "(len - 1) * q = (len - a - 1) * q + a * q"
    by (subst e) (simp only: add_mult_distrib)
  then have "h + (len - 1) * q = (h + (len - a - 1) * q) + a * q" by simp
  then have "(h + (len - 1) * q) mod a = (h + (len - a - 1) * q) mod a"
    by (simp only: mod_mult_self2)
  then show ?thesis by (simp only: chain_pos_def)
qed


lemma worst_case_chain:
  fixes es :: "'v table_entry_t list"
  assumes wc: "worst_case es a q h' n = Some r" and h': "h' = chain_pos a h q n" and n: "1 \<le> n"
  shows "n \<le> snd r \<and> fst r = chain_pos a h q (snd r) \<and> state (es ! fst r) \<noteq> TES_SET
       \<and> (\<forall>len. n \<le> len \<and> len < snd r \<longrightarrow> state (es ! chain_pos a h q len) = TES_SET)"
proof -
  define P where "P = (\<lambda>(es :: 'v table_entry_t list) a q h' n (r :: nat \<times> nat).
     h' = chain_pos a h q n \<longrightarrow> 1 \<le> n \<longrightarrow>
       (n \<le> snd r \<and> fst r = chain_pos a h q (snd r) \<and> state (es ! fst r) \<noteq> TES_SET
        \<and> (\<forall>len. n \<le> len \<and> len < snd r \<longrightarrow> state (es ! chain_pos a h q len) = TES_SET)))"
  have "P es a q h' n r"
  proof (rule worst_case.raw_induct [where P = P, OF _ wc])
    fix wcf :: "'v table_entry_t list \<Rightarrow> nat \<Rightarrow> nat \<Rightarrow> nat \<Rightarrow> nat \<Rightarrow> (nat \<times> nat) option"
      and es :: "'v table_entry_t list" and a q h' n :: nat and r :: "nat \<times> nat"
    assume ih: "\<And>es a q h n y. wcf es a q h n = Some y \<Longrightarrow> P es a q h n y"
      and st: "(if state (es ! h') = TES_SET then wcf es a q ((h' + q) mod a) (n + 1)
               else Some (h', n)) = Some r"
    show "P es a q h' n r"
      unfolding P_def
    proof (intro impI)
      assume hp: "h' = chain_pos a h q n" and n1: "1 \<le> n"
      show "n \<le> snd r \<and> fst r = chain_pos a h q (snd r) \<and> state (es ! fst r) \<noteq> TES_SET
        \<and> (\<forall>len. n \<le> len \<and> len < snd r \<longrightarrow> state (es ! chain_pos a h q len) = TES_SET)"
      proof (cases "state (es ! h') = TES_SET")
        case True
        with st have w: "wcf es a q ((h' + q) mod a) (n + 1) = Some r" by (simp only: simp_thms if_True)
        have p: "(h' + q) mod a = chain_pos a h q (n + 1)"
          unfolding hp by (rule chain_pos_step [OF n1])
        have n2: "1 \<le> n + 1" by simp
        from ih [OF w, unfolded P_def, rule_format, OF p n2]
        have i1: "n + 1 \<le> snd r" and i2: "fst r = chain_pos a h q (snd r)"
          and i3: "state (es ! fst r) \<noteq> TES_SET"
          and i4: "\<forall>len. n + 1 \<le> len \<and> len < snd r \<longrightarrow> state (es ! chain_pos a h q len) = TES_SET"
          by blast+
        have i5: "\<forall>len. n \<le> len \<and> len < snd r \<longrightarrow> state (es ! chain_pos a h q len) = TES_SET"
        proof (intro allI impI)
          fix len
          assume l: "n \<le> len \<and> len < snd r"
          show "state (es ! chain_pos a h q len) = TES_SET"
          proof (cases "len = n")
            case True
            show ?thesis unfolding True hp [symmetric] by (rule \<open>state (es ! h') = TES_SET\<close>)
          next
            case False
            with l have "n + 1 \<le> len \<and> len < snd r" by simp
            with i4 show ?thesis by blast
          qed
        qed
        from i1 have i0: "n \<le> snd r" by simp
        show ?thesis by (intro conjI i0 i2 i3 i5)
      next
        case False
        with st have r: "r = (h', n)" by simp
        have e: "\<forall>len. n \<le> len \<and> len < n \<longrightarrow> state (es ! chain_pos a h q len) = TES_SET" by auto
        show ?thesis unfolding r fst_conv snd_conv
          by (intro conjI le_refl hp False e)
      qed
    qed
  qed
  then show ?thesis unfolding P_def using h' n by blast
qed

lemma worst_case_bound:
  assumes wc: "worst_case es a q h 1 = Some (hw, lw)" and h: "h < a"
  shows "lw \<le> a \<and> hw = chain_pos a h q lw \<and> 1 \<le> lw"
proof -
  have h0: "h = chain_pos a h q 1" using h by (simp add: chain_pos_def)
  from worst_case_chain [OF wc h0] have c: "1 \<le> lw" "hw = chain_pos a h q lw"
    "state (es ! hw) \<noteq> TES_SET"
    "\<forall>len. 1 \<le> len \<and> len < lw \<longrightarrow> state (es ! chain_pos a h q len) = TES_SET"
    by auto
  have "lw \<le> a"
  proof (rule ccontr)
    assume "\<not> lw \<le> a"
    then have gt: "a < lw" by simp
    then have "1 \<le> lw - a \<and> lw - a < lw" using h by simp
    with c(4) have "state (es ! chain_pos a h q (lw - a)) = TES_SET" by blast
    with chain_pos_period [OF gt] c(2,3) show False by simp
  qed
  with c show ?thesis by simp
qed

lemma scan_body_eq:
  assumes "scan_h s = chain_pos a h q (scan_len s)"
  shows "scan_body es a q lw s =
    (case candidate_at es a lw h q (scan_len s) of
       Some (hn, lm) \<Rightarrow>
         s\<lparr>entry_move_old := Some (scan_h s), entry_move_new := Some hn, len_entry_move := lm,
           scan_h := (scan_h s + q) mod a, scan_len := scan_len s + 1\<rparr>
     | None \<Rightarrow> s\<lparr>scan_h := (scan_h s + q) mod a, scan_len := scan_len s + 1\<rparr>)"
  using assms
  by (simp add: scan_body_def candidate_at_def Let_def split: option.split prod.split)


lemma scan_body_len: "scan_len (scan_body es a q lw s) = scan_len s + 1"
  by (simp add: scan_body_def Let_def split: option.split prod.split)

lemma scan_body_h: "scan_h (scan_body es a q lw s) = (scan_h s + q) mod a"
  by (simp add: scan_body_def Let_def split: option.split prod.split)


lemma held_step:
  "1 \<le> n \<Longrightarrow> held es a lw h q n =
     (case candidate_at es a lw h q n of
        Some (hn, lm) \<Rightarrow> Some (n, hn, lm)
      | None \<Rightarrow> held es a lw h q (n - 1))"
  by (cases n) (auto split: option.split)

lemma scan_inv_step:
  assumes inv: "scan_inv es a lw h q s"
  shows "scan_inv es a lw h q (scan_body es a q lw s)"
proof -
  from inv have len: "1 \<le> scan_len s" and pos: "scan_h s = chain_pos a h q (scan_len s)"
    and old: "entry_move_old s =
         map_option (\<lambda>(len_c, h_new, len_move). chain_pos a h q len_c)
           (held es a lw h q (scan_len s - 1))"
    and new: "entry_move_new s =
         map_option (\<lambda>(len_c, h_new, len_move). h_new) (held es a lw h q (scan_len s - 1))"
    and lem: "len_entry_move s = held_len_move es a lw h q (scan_len s - 1)"
    unfolding scan_inv_def by simp_all
  have h': "(scan_h s + q) mod a = chain_pos a h q (scan_len s + 1)"
    unfolding pos by (rule chain_pos_step [OF len])
  show ?thesis
  proof (cases "candidate_at es a lw h q (scan_len s)")
    case None
    then have b: "scan_body es a q lw s
        = s\<lparr>scan_h := (scan_h s + q) mod a, scan_len := scan_len s + 1\<rparr>"
      by (simp add: scan_body_eq [OF pos])
    have hd: "held es a lw h q (scan_len s) = held es a lw h q (scan_len s - 1)"
      using None by (simp add: held_step [OF len])
    show ?thesis
      unfolding b scan_inv_def using old new lem h' by (simp add: hd held_len_move_def)
  next
    case (Some c)
    obtain hn lm where c: "c = (hn, lm)" by (cases c)
    have b: "scan_body es a q lw s =
        s\<lparr>entry_move_old := Some (scan_h s), entry_move_new := Some hn, len_entry_move := lm,
          scan_h := (scan_h s + q) mod a, scan_len := scan_len s + 1\<rparr>"
      using Some c by (simp add: scan_body_eq [OF pos])
    have hd: "held es a lw h q (scan_len s) = Some (scan_len s, hn, lm)"
      using Some c by (simp add: held_step [OF len])
    show ?thesis
      unfolding b scan_inv_def using h' pos by (simp add: hd held_len_move_def)
  qed
qed

lemma relocation_scan_inv:
  "scan_inv es a lw h q s \<Longrightarrow> scan_len s < lw - 1
   \<Longrightarrow> \<forall>L. 2 \<le> L \<and> L \<le> scan_len s \<longrightarrow> L < lw - 1 \<and> L < held_len_move es a lw h q (L - 1)
   \<Longrightarrow> scan_inv es a lw h q (relocation_scan es a q lw s)
       \<and> scan_len s < scan_len (relocation_scan es a q lw s)
       \<and> scan_len (relocation_scan es a q lw s) \<le> lw - 1
       \<and> (\<forall>L. 2 \<le> L \<and> L < scan_len (relocation_scan es a q lw s)
             \<longrightarrow> L < lw - 1 \<and> L < held_len_move es a lw h q (L - 1))
       \<and> \<not> (scan_len (relocation_scan es a q lw s) < lw - 1
             \<and> scan_len (relocation_scan es a q lw s)
                 < held_len_move es a lw h q (scan_len (relocation_scan es a q lw s) - 1))"
proof (induction es a q lw s rule: relocation_scan.induct)
  case (1 es a q lw s)
  define s' where "s' = scan_body es a q lw s"
  have inv': "scan_inv es a lw h q s'"
    unfolding s'_def by (rule scan_inv_step [OF "1.prems"(1)])
  have len': "scan_len s' = scan_len s + 1" by (simp add: s'_def scan_body_len)
  have lem': "len_entry_move s' = held_len_move es a lw h q (scan_len s' - 1)"
    using inv' unfolding scan_inv_def by simp
  have passed: "\<forall>L. 2 \<le> L \<and> L < scan_len s'
      \<longrightarrow> L < lw - 1 \<and> L < held_len_move es a lw h q (L - 1)"
    using "1.prems"(3) unfolding len' by (simp add: less_Suc_eq_le)
  show ?case
  proof (cases "scan_len s' < lw - 1 \<and> scan_len s' < len_entry_move s'")
    case True
    then have r: "relocation_scan es a q lw s = relocation_scan es a q lw s'"
      by (subst relocation_scan.simps) (simp add: s'_def Let_def)
    have p': "\<forall>L. 2 \<le> L \<and> L \<le> scan_len s'
        \<longrightarrow> L < lw - 1 \<and> L < held_len_move es a lw h q (L - 1)"
    proof (intro allI impI)
      fix L
      assume L: "2 \<le> L \<and> L \<le> scan_len s'"
      show "L < lw - 1 \<and> L < held_len_move es a lw h q (L - 1)"
      proof (cases "L = scan_len s'")
        case True
        with \<open>scan_len s' < lw - 1 \<and> scan_len s' < len_entry_move s'\<close> lem' show ?thesis by simp
      next
        case False
        with L have "2 \<le> L \<and> L < scan_len s'" by simp
        with passed show ?thesis by blast
      qed
    qed
    from True have lt: "scan_len s' < lw - 1" by simp
    from "1.IH" [OF s'_def True inv' lt p'] len'
    show ?thesis unfolding r by simp
  next
    case False
    then have r: "relocation_scan es a q lw s = s'"
      by (subst relocation_scan.simps) (auto simp: s'_def Let_def)
    have le: "scan_len s' \<le> lw - 1" using "1.prems"(2) len' by simp
    have nt: "\<not> (scan_len s' < lw - 1 \<and> scan_len s' < held_len_move es a lw h q (scan_len s' - 1))"
      using False lem' by simp
    show ?thesis
      unfolding r using inv' len' le passed nt by simp
  qed
qed

lemma t13_worst: "worst_case (entries t13) 13 7 12 1 = Some (9, 8)"
  by (simp add: t13_def table13_def set_entry_def zero_entry_def worst_case.simps)

lemma t13_cand1: "move_scan (entries t13) 13 8 1 8 7 1 = Some (10, 3)"
  by (simp add: t13_def table13_def set_entry_def zero_entry_def move_scan.simps)

lemma t13_cand2: "move_scan (entries t13) 13 8 2 11 4 1 = Some (9, 5)"
  by (simp add: t13_def table13_def set_entry_def zero_entry_def move_scan.simps)

lemma t13_cand3: "move_scan (entries t13) 13 8 3 4 4 1 = Some (3, 4)"
  by (simp add: t13_def table13_def set_entry_def zero_entry_def move_scan.simps)

lemma t13_scan:
  "relocation_scan (entries t13) 13 7 8
     \<lparr>entry_move_old = None, entry_move_new = None, len_entry_move = 2 ^ 64 - 1,
      scan_h = 12, scan_len = 1\<rparr>
   = \<lparr>entry_move_old = Some 0, entry_move_new = Some 3, len_entry_move = 4,
      scan_h = 7, scan_len = 4\<rparr>"
  by (simp add: t13_def table13_def set_entry_def zero_entry_def move_scan.simps relocation_scan.simps scan_body_def Let_def)


lemma t13_cand_at_1: "candidate_at (entries t13) 13 8 12 7 1 = Some (10, 3)"
  by (simp add: candidate_at_def chain_pos_def t13_def table13_def set_entry_def zero_entry_def move_scan.simps)

lemma t13_cand_at_2: "candidate_at (entries t13) 13 8 12 7 2 = Some (9, 5)"
  by (simp add: candidate_at_def chain_pos_def t13_def table13_def set_entry_def zero_entry_def move_scan.simps)

lemma t13_cand_at_3: "candidate_at (entries t13) 13 8 12 7 3 = Some (3, 4)"
  by (simp add: candidate_at_def chain_pos_def t13_def table13_def set_entry_def zero_entry_def move_scan.simps)

lemma t13_insert:
  "table_insert t13 12638190499090526629
     = Some (0, t13\<lparr>entries := (entries t13)[3 := entries t13 ! 0]\<rparr>)"
proof -
  have a: "unat (alloc t13) = 13" by (simp add: t13_def table13_def)
  have e: "entries t13 = entries t13" ..
  show ?thesis
    unfolding table_insert_def a Let_def
    using t13_worst t13_scan by simp
qed

lemma t13_steps:
  "table_set True True
     (table13 0
      [zero_entry, zero_entry, zero_entry, zero_entry, zero_entry, zero_entry, zero_entry,
       zero_entry, zero_entry, zero_entry, zero_entry, zero_entry, zero_entry]) ''bu'' (Some 1)
   = Some (0, table13 1
             [zero_entry, zero_entry, zero_entry, zero_entry, zero_entry, zero_entry, zero_entry,
              zero_entry, zero_entry, zero_entry, zero_entry,
              set_entry ''bu'' 1 631713443730618390, zero_entry])"
  "table_set True True
     (table13 1
      [zero_entry, zero_entry, zero_entry, zero_entry, zero_entry, zero_entry, zero_entry,
       zero_entry, zero_entry, zero_entry, zero_entry,
       set_entry ''bu'' 1 631713443730618390, zero_entry]) ''lb'' (Some 2)
   = Some (0, table13 2
             [set_entry ''lb'' 2 623247204195096715, zero_entry, zero_entry, zero_entry,
              zero_entry, zero_entry, zero_entry, zero_entry, zero_entry, zero_entry, zero_entry,
              set_entry ''bu'' 1 631713443730618390, zero_entry])"
  "table_set True True
     (table13 2
      [set_entry ''lb'' 2 623247204195096715, zero_entry, zero_entry, zero_entry,
       zero_entry, zero_entry, zero_entry, zero_entry, zero_entry, zero_entry, zero_entry,
       set_entry ''bu'' 1 631713443730618390, zero_entry]) ''dq'' (Some 3)
   = Some (0, table13 3
             [set_entry ''lb'' 2 623247204195096715, zero_entry, zero_entry, zero_entry,
              zero_entry, zero_entry, set_entry ''dq'' 3 635673884614677512, zero_entry,
              zero_entry, zero_entry, zero_entry, set_entry ''bu'' 1 631713443730618390,
              zero_entry])"
  "table_set True True
     (table13 3
      [set_entry ''lb'' 2 623247204195096715, zero_entry, zero_entry, zero_entry,
       zero_entry, zero_entry, set_entry ''dq'' 3 635673884614677512, zero_entry,
       zero_entry, zero_entry, zero_entry, set_entry ''bu'' 1 631713443730618390,
       zero_entry]) ''rt'' (Some 4)
   = Some (0, table13 4
             [set_entry ''lb'' 2 623247204195096715, zero_entry, zero_entry, zero_entry,
              set_entry ''rt'' 4 632823950474922275, zero_entry,
              set_entry ''dq'' 3 635673884614677512, zero_entry, zero_entry, zero_entry,
              zero_entry, set_entry ''bu'' 1 631713443730618390, zero_entry])"
  "table_set True True
     (table13 4
      [set_entry ''lb'' 2 623247204195096715, zero_entry, zero_entry, zero_entry,
       set_entry ''rt'' 4 632823950474922275, zero_entry,
       set_entry ''dq'' 3 635673884614677512, zero_entry, zero_entry, zero_entry,
       zero_entry, set_entry ''bu'' 1 631713443730618390, zero_entry]) ''gc'' (Some 5)
   = Some (0, table13 5
             [set_entry ''lb'' 2 623247204195096715, zero_entry,
              set_entry ''gc'' 5 622148792078703151, zero_entry,
              set_entry ''rt'' 4 632823950474922275, zero_entry,
              set_entry ''dq'' 3 635673884614677512, zero_entry, zero_entry, zero_entry,
              zero_entry, set_entry ''bu'' 1 631713443730618390, zero_entry])"
  "table_set True True
     (table13 5
      [set_entry ''lb'' 2 623247204195096715, zero_entry,
       set_entry ''gc'' 5 622148792078703151, zero_entry,
       set_entry ''rt'' 4 632823950474922275, zero_entry,
       set_entry ''dq'' 3 635673884614677512, zero_entry, zero_entry, zero_entry,
       zero_entry, set_entry ''bu'' 1 631713443730618390, zero_entry]) ''rf'' (Some 6)
   = Some (0, table13 6
             [set_entry ''lb'' 2 623247204195096715, set_entry ''rf'' 6 619330743776166033,
              set_entry ''gc'' 5 622148792078703151, zero_entry,
              set_entry ''rt'' 4 632823950474922275, zero_entry,
              set_entry ''dq'' 3 635673884614677512, zero_entry, zero_entry, zero_entry,
              zero_entry, set_entry ''bu'' 1 631713443730618390, zero_entry])"
  "table_set True True
     (table13 6
      [set_entry ''lb'' 2 623247204195096715, set_entry ''rf'' 6 619330743776166033,
       set_entry ''gc'' 5 622148792078703151, zero_entry,
       set_entry ''rt'' 4 632823950474922275, zero_entry,
       set_entry ''dq'' 3 635673884614677512, zero_entry, zero_entry, zero_entry,
       zero_entry, set_entry ''bu'' 1 631713443730618390, zero_entry]) ''xv'' (Some 7)
   = Some (0, table13 7
             [set_entry ''lb'' 2 623247204195096715, set_entry ''rf'' 6 619330743776166033,
              set_entry ''gc'' 5 622148792078703151, zero_entry,
              set_entry ''rt'' 4 632823950474922275, zero_entry,
              set_entry ''dq'' 3 635673884614677512, set_entry ''xv'' 7 634800872382067203,
              zero_entry, zero_entry, zero_entry, set_entry ''bu'' 1 631713443730618390,
              zero_entry])"
  "table_set True True
     (table13 7
      [set_entry ''lb'' 2 623247204195096715, set_entry ''rf'' 6 619330743776166033,
       set_entry ''gc'' 5 622148792078703151, zero_entry,
       set_entry ''rt'' 4 632823950474922275, zero_entry,
       set_entry ''dq'' 3 635673884614677512, set_entry ''xv'' 7 634800872382067203,
       zero_entry, zero_entry, zero_entry, set_entry ''bu'' 1 631713443730618390,
       zero_entry]) ''zj'' (Some 8)
   = Some (0, table13 8
             [set_entry ''lb'' 2 623247204195096715, set_entry ''rf'' 6 619330743776166033,
              set_entry ''gc'' 5 622148792078703151, zero_entry,
              set_entry ''rt'' 4 632823950474922275, zero_entry,
              set_entry ''dq'' 3 635673884614677512, set_entry ''xv'' 7 634800872382067203,
              zero_entry, zero_entry, zero_entry, set_entry ''bu'' 1 631713443730618390,
              set_entry ''zj'' 8 630871217823597989])"
  "table_set True True
     (table13 8
      [set_entry ''lb'' 2 623247204195096715, set_entry ''rf'' 6 619330743776166033,
       set_entry ''gc'' 5 622148792078703151, zero_entry,
       set_entry ''rt'' 4 632823950474922275, zero_entry,
       set_entry ''dq'' 3 635673884614677512, set_entry ''xv'' 7 634800872382067203,
       zero_entry, zero_entry, zero_entry, set_entry ''bu'' 1 631713443730618390,
       set_entry ''zj'' 8 630871217823597989]) ''rl'' (Some 9)
   = Some (0, table13 9
             [set_entry ''lb'' 2 623247204195096715, set_entry ''rf'' 6 619330743776166033,
              set_entry ''gc'' 5 622148792078703151, zero_entry,
              set_entry ''rl'' 9 625241718288293019, zero_entry,
              set_entry ''dq'' 3 635673884614677512, set_entry ''xv'' 7 634800872382067203,
              set_entry ''rt'' 4 632823950474922275, zero_entry, zero_entry,
              set_entry ''bu'' 1 631713443730618390, set_entry ''zj'' 8 630871217823597989])"
  by (simp_all add: table13_def set_entry_def table_set_def table_hash_def char_u64_def
      zero_entry_def table_find_def table_find_loop.simps table_insert_def worst_case.simps
      move_scan.simps relocation_scan.simps scan_body_def Let_def key_equal_def)

lemma t13_inserted: "inserted t13_fresh 9 t13"
proof -
  note i = inserted_Suc [OF _ t13_steps(1)] inserted_Suc [OF _ t13_steps(2)]
    inserted_Suc [OF _ t13_steps(3)] inserted_Suc [OF _ t13_steps(4)]
    inserted_Suc [OF _ t13_steps(5)] inserted_Suc [OF _ t13_steps(6)]
    inserted_Suc [OF _ t13_steps(7)] inserted_Suc [OF _ t13_steps(8)]
    inserted_Suc [OF _ t13_steps(9)]
  have "inserted t13_fresh (Suc (Suc (Suc (Suc (Suc (Suc (Suc (Suc (Suc 0))))))))) t13"
    unfolding t13_def
    by (intro i) (simp add: t13_fresh_def inserted_0)
  then show ?thesis by (simp add: eval_nat_numeral)
qed

lemma table_size_12: "table_size 12 = 13"
  by (simp add: table_size_def table_sizes_n_def table_sizes_def table_size_search.simps)

lemma table_load_13: "table_load 13 = 10"
  by (simp add: table_load_def drop_bit_eq_div)

lemma replicate_13: "replicate 13 x = [x, x, x, x, x, x, x, x, x, x, x, x, x]"
  by (simp add: eval_nat_numeral)

lemma create_t13_fresh: "table_create True True 8 = Some t13_fresh"
  unfolding table_create_def table_sizes_last
  by (simp add: table_size_12 table_load_13 t13_fresh_def table13_def replicate_13)

text \<open>
  C3, as stated, fails. In the table \<open>t13\<close>, \<^verbatim>\<open>table_set(t, "b", v)\<close> calls \<^verbatim>\<open>table_insert\<close>
  with the hash of \<^verbatim>\<open>b\<close>: \<open>len_worst\<close> is 8, and the scan meets three candidates, at
  \<open>len = 1\<close> with \<open>len_move = 3\<close>, at \<open>len = 2\<close> with \<open>len_move = 5\<close> and at \<open>len = 3\<close>
  with \<open>len_move = 4\<close>. The third is admitted although \<open>3 + 4\<close> is not below
  \<open>len_worst - 1 = 7\<close>, and it is the one used (the entry of slot 0 moves to slot 3)
  although the first has the smaller \<open>len_move\<close>.
\<close>

theorem table_insert_relocation_counterexample:
  "table_create True True 8 = Some t13_fresh \<and> inserted t13_fresh 9 t13
   \<and> table_hash t13 ''b'' = 12638190499090526629
   \<and> worst_case (entries t13) 13 7 12 1 = Some (9, 8)
   \<and> candidate_at (entries t13) 13 8 12 7 1 = Some (10, 3)
   \<and> candidate_at (entries t13) 13 8 12 7 2 = Some (9, 5)
   \<and> candidate_at (entries t13) 13 8 12 7 3 = Some (3, 4)
   \<and> \<not> (3 + 4 < (8 :: nat) - 1)
   \<and> table_insert t13 12638190499090526629
       = Some (0, t13\<lparr>entries := (entries t13)[3 := entries t13 ! 0]\<rparr>)"
proof -
  have "\<not> ci t13" by (simp add: t13_def table13_def)
  then have hb: "table_hash t13 ''b'' = 12638190499090526629" by (rule hash_b)
  have n: "\<not> (3 + 4 < (8 :: nat) - 1)" by simp
  show ?thesis
    by (intro conjI create_t13_fresh t13_inserted hb t13_worst t13_cand_at_1 t13_cand_at_2
        t13_cand_at_3 n t13_insert)
qed

text \<open>
  C3, amended. When \<open>len_worst\<close> exceeds 2, with \<open>s\<close> the state the scan ends in:
  \<^item> at a position \<open>len\<close> from 1 to \<open>len_worst - 2\<close> the inner loop finds the candidate
    \<open>(h_new, len_move)\<close> exactly when \<open>h_new\<close> is the first slot not set on the own chain of
    the entry at that position, \<open>len_move\<close> steps further, and
    \<open>len + len_move \<le> len_worst - 1\<close> (equality is admitted);
  \<^item> the scan looks at the positions 1, 2, ... and ends at the first length
    \<open>L \<ge> 2\<close> that is not below \<open>len_worst - 1\<close> or not below the \<open>len_move\<close> of the
    candidate held then: every length from 2 below \<open>scan_len s\<close> passes both tests, and
    \<open>scan_len s\<close> fails one;
  \<^item> a candidate replaces the one held, whatever their \<open>len_move\<close>: the candidate
    used for the relocation is the one met last among the positions below
    \<open>scan_len s\<close>; the entry at its position moves to \<open>h_new\<close>, and the new entry gets the
    slot of that position;
  \<^item> without a candidate the new entry gets the slot where the walk that found
    \<open>len_worst\<close> stopped, the position \<open>len_worst\<close> of the chain (and \<open>len_worst\<close> is at most
    the capacity).
\<close>

theorem table_insert_relocation:
  assumes a: "a = unat (alloc t)" and h: "h = unat hsh mod a" and q: "q = unat hsh mod (a - 2) + 1"
    and pos: "0 < a"
    and wc: "worst_case (entries t) a q h 1 = Some (h_worst, len_worst)"
    and lw: "2 < len_worst"
    and s: "s = relocation_scan (entries t) a q len_worst
              \<lparr>entry_move_old = None, entry_move_new = None, len_entry_move = 2 ^ 64 - 1,
               scan_h = h, scan_len = 1\<rparr>"
  shows "(\<forall>len h_new len_move. 1 \<le> len \<and> len < len_worst - 1 \<longrightarrow>
            (candidate_at (entries t) a len_worst h q len = Some (h_new, len_move)
             \<longleftrightarrow> admitted (entries t) a len_worst h q len h_new len_move))
     \<and> 2 \<le> scan_len s \<and> scan_len s \<le> len_worst - 1
     \<and> (\<forall>L. 2 \<le> L \<and> L < scan_len s
           \<longrightarrow> L < len_worst - 1 \<and> L < held_len_move (entries t) a len_worst h q (L - 1))
     \<and> (scan_len s = len_worst - 1
          \<or> held_len_move (entries t) a len_worst h q (scan_len s - 1) \<le> scan_len s)
     \<and> len_worst \<le> a \<and> h_worst = chain_pos a h q len_worst
     \<and> table_insert t hsh =
         (case held (entries t) a len_worst h q (scan_len s - 1) of
            None \<Rightarrow> Some (h_worst, t)
          | Some (len_c, h_new, len_move) \<Rightarrow>
              Some (chain_pos a h q len_c,
                    t\<lparr>entries := (entries t)[h_new := entries t ! chain_pos a h q len_c]\<rparr>))"
proof -
  let ?es = "entries t"
  define init where "init = \<lparr>entry_move_old = None, entry_move_new = None,
    len_entry_move = 2 ^ 64 - 1, scan_h = h, scan_len = 1\<rparr>"
  have hlt: "h < a" using pos h by simp
  have i1: "scan_inv ?es a len_worst h q init"
    using hlt by (simp add: scan_inv_def init_def chain_pos_def held_len_move_def)
  have i2: "scan_len init < len_worst - 1" using lw by (simp add: init_def)
  have i3: "\<forall>L. 2 \<le> L \<and> L \<le> scan_len init
      \<longrightarrow> L < len_worst - 1 \<and> L < held_len_move ?es a len_worst h q (L - 1)"
    by (simp add: init_def)
  have s': "s = relocation_scan ?es a q len_worst init" by (simp add: s init_def)
  from relocation_scan_inv [OF i1 i2 i3]
  have inv: "scan_inv ?es a len_worst h q s" and l2: "2 \<le> scan_len s"
    and l3: "scan_len s \<le> len_worst - 1"
    and passed: "\<forall>L. 2 \<le> L \<and> L < scan_len s
           \<longrightarrow> L < len_worst - 1 \<and> L < held_len_move ?es a len_worst h q (L - 1)"
    and stop: "\<not> (scan_len s < len_worst - 1
           \<and> scan_len s < held_len_move ?es a len_worst h q (scan_len s - 1))"
    unfolding s' by (simp_all add: init_def)
  from l3 stop have l4: "scan_len s = len_worst - 1
          \<or> held_len_move ?es a len_worst h q (scan_len s - 1) \<le> scan_len s"
    by auto
  from worst_case_bound [OF wc hlt] have lwa: "len_worst \<le> a"
    and hw: "h_worst = chain_pos a h q len_worst" by simp_all
  have adm: "\<forall>len h_new len_move. 1 \<le> len \<and> len < len_worst - 1 \<longrightarrow>
            (candidate_at ?es a len_worst h q len = Some (h_new, len_move)
             \<longleftrightarrow> admitted ?es a len_worst h q len h_new len_move)"
    by (intro allI impI candidate_at_admitted) simp_all
  from inv have pos_s: "scan_h s = chain_pos a h q (scan_len s)"
    and old: "entry_move_old s =
         map_option (\<lambda>(len_c, h_new, len_move). chain_pos a h q len_c)
           (held ?es a len_worst h q (scan_len s - 1))"
    and new: "entry_move_new s =
         map_option (\<lambda>(len_c, h_new, len_move). h_new) (held ?es a len_worst h q (scan_len s - 1))"
    unfolding scan_inv_def by simp_all
  have ins: "table_insert t hsh =
      (case (entry_move_old s, entry_move_new s) of
         (Some old, Some new) \<Rightarrow> Some (old, t\<lparr>entries := (entries t)[new := entries t ! old]\<rparr>)
       | _ \<Rightarrow> Some ((scan_h s + q) mod a, t))"
  proof -
    have nle: "\<not> len_worst \<le> 2" using lw by simp
    show ?thesis
      apply (simp only: table_insert_def Let_def a [symmetric] h [symmetric] q [symmetric] wc
          option.case prod.case nle if_False)
      apply (simp only: s [symmetric])
      done
  qed
  have res: "table_insert t hsh =
         (case held ?es a len_worst h q (scan_len s - 1) of
            None \<Rightarrow> Some (h_worst, t)
          | Some (len_c, h_new, len_move) \<Rightarrow>
              Some (chain_pos a h q len_c,
                    t\<lparr>entries := (entries t)[h_new := entries t ! chain_pos a h q len_c]\<rparr>))"
  proof (cases "held ?es a len_worst h q (scan_len s - 1)")
    case None
    then have o: "entry_move_old s = None" using old by simp
    have hl: "held_len_move ?es a len_worst h q (scan_len s - 1) = 2 ^ 64 - 1"
      using None by (simp add: held_len_move_def)
    have "unat (alloc t) < 2 ^ 64" using unsigned_less [of "alloc t", where 'a = nat] by simp
    then have "a < 2 ^ 64" by (simp only: a)
    with lwa l3 have "scan_len s < 2 ^ 64 - 1" by simp
    with stop hl have "\<not> scan_len s < len_worst - 1" by simp
    with l3 have e: "scan_len s = len_worst - 1" by simp
    have "1 \<le> len_worst - 1" using lw by simp
    from chain_pos_step [OF this, of a h q] lw
    have "(chain_pos a h q (len_worst - 1) + q) mod a = chain_pos a h q len_worst" by simp
    then have "(scan_h s + q) mod a = h_worst" unfolding pos_s e hw .
    with ins o None show ?thesis by simp
  next
    case (Some c)
    obtain len_c h_new len_move where c: "c = (len_c, h_new, len_move)" by (cases c)
    from Some c old new have "entry_move_old s = Some (chain_pos a h q len_c)"
      "entry_move_new s = Some h_new" by simp_all
    with ins Some c show ?thesis by simp
  qed
  show ?thesis
    by (intro conjI adm l2 l3 passed l4 lwa hw res)
qed


theorem table_insert_relocation_witness:
  "13 = unat (alloc t13) \<and> 12 = unat (12638190499090526629 :: 64 word) mod 13
   \<and> 7 = unat (12638190499090526629 :: 64 word) mod (13 - 2) + 1
   \<and> worst_case (entries t13) 13 7 12 1 = Some (9, 8)
   \<and> candidate_at (entries t13) 13 8 12 7 3 = Some (3, 4)
   \<and> admitted (entries t13) 13 8 12 7 3 3 4
   \<and> held (entries t13) 13 8 12 7 3 = Some (3, 3, 4)
   \<and> table_insert t13 12638190499090526629
       = Some (0, t13\<lparr>entries := (entries t13)[3 := entries t13 ! 0]\<rparr>)"
proof -
  define s where "s = \<lparr>entry_move_old = Some 0, entry_move_new = Some 3, len_entry_move = 4,
      scan_h = 7, scan_len = (4 :: nat)\<rparr>"
  have a: "13 = unat (alloc t13)" by (simp add: t13_def table13_def)
  have h: "12 = unat (12638190499090526629 :: 64 word) mod 13" by simp
  have q: "7 = unat (12638190499090526629 :: 64 word) mod (13 - 2) + 1" by simp
  have sc: "s = relocation_scan (entries t13) 13 7 8
     \<lparr>entry_move_old = None, entry_move_new = None, len_entry_move = 2 ^ 64 - 1,
      scan_h = 12, scan_len = 1\<rparr>"
    unfolding s_def by (rule t13_scan [symmetric])
  have p: "0 < (13 :: nat)" and l: "2 < (8 :: nat)" by simp_all
  note T = table_insert_relocation [OF a h q p t13_worst l sc]
  have pre: "1 \<le> (3 :: nat) \<and> 3 < (8 :: nat) - 1" by simp
  have adm: "admitted (entries t13) 13 8 12 7 3 3 4"
    by (rule iffD1 [OF conjunct1 [OF T, rule_format, OF pre] t13_cand_at_3])
  have one: "1 \<le> (3 :: nat)" by simp
  have hd: "held (entries t13) 13 8 12 7 3 = Some (3, 3, 4)"
    unfolding held_step [OF one] t13_cand_at_3 by simp
  have sl: "scan_len s - 1 = 3" by (simp add: s_def)
  have cp: "chain_pos 13 12 7 3 = 0" by (simp add: chain_pos_def)
  note last = T [THEN conjunct2, THEN conjunct2, THEN conjunct2, THEN conjunct2, THEN conjunct2,
      THEN conjunct2, THEN conjunct2]
  have ins: "table_insert t13 12638190499090526629
       = Some (0, t13\<lparr>entries := (entries t13)[3 := entries t13 ! 0]\<rparr>)"
    using last [unfolded sl hd] by (simp add: cp)
  show ?thesis
    by (intro conjI a h q t13_worst t13_cand_at_3 adm hd ins)
qed

section \<open>Properties of the compiler and the interpreter\<close>

subsection \<open>Name lists\<close>

lemma strtok_r_delims: "\<forall>c \<in> set names. is_delim c \<Longrightarrow> strtok_r names = []"
proof -
  assume "\<forall>c \<in> set names. is_delim c"
  then have d: "dropWhile is_delim names = []" by simp
  show ?thesis by (subst strtok_r.simps, subst d, simp)
qed

lemma strtok_r_token: "\<exists>c \<in> set names. \<not> is_delim c \<Longrightarrow> strtok_r names \<noteq> []"
proof -
  assume "\<exists>c \<in> set names. \<not> is_delim c"
  then have "dropWhile is_delim names \<noteq> []" by simp
  then show ?thesis by (subst strtok_r.simps) (simp split: list.split)
qed

lemma template_parse_names_Inr: "template_parse_names names = Inr l \<Longrightarrow> l \<noteq> []"
  by (auto simp: template_parse_names_def Let_def split: if_splits)

lemma template_parse_names_empty:
  "\<forall>c \<in> set names. is_delim c
   \<Longrightarrow> template_parse_names names = Inl (Error (''empty '' @ quoted ''names''))"
  by (simp add: template_parse_names_def strtok_r_delims)

lemma names_ok_simps [simp]:
  "names_ok NT_NONE" "names_ok (NT_JUMP t)" "names_ok (NT_IF e t)" "names_ok (NT_FOR_INIT e)"
  "names_ok (NT_FOR_NEXT l t) \<longleftrightarrow> l \<noteq> []" "names_ok (NT_SET l e) \<longleftrightarrow> l \<noteq> []"
  "names_ok (NT_INCLUDE e)" "names_ok (NT_SUB e fl)" "names_ok (NT_RAW r)"
  by (simp_all add: names_ok_def)

lemma list_all_update: "list_all P xs \<Longrightarrow> P x \<Longrightarrow> list_all P (xs[i := x])"
  by (auto simp: list_all_iff dest: set_update_subset_insert [THEN subsetD])

lemma set_if_next_names: "set_if_next ns i t = Some ns' \<Longrightarrow> list_all names_ok ns \<Longrightarrow> list_all names_ok ns'"
  by (auto simp: set_if_next_def list_all_update split: if_splits node_t.splits)

lemma set_jump_next_names: "set_jump_next ns i t = Some ns' \<Longrightarrow> list_all names_ok ns \<Longrightarrow> list_all names_ok ns'"
  by (auto simp: set_jump_next_def list_all_update split: if_splits node_t.splits)

lemma set_for_next_next_names:
  "set_for_next_next ns i t = Some ns' \<Longrightarrow> list_all names_ok ns \<Longrightarrow> list_all names_ok ns'"
proof -
  assume s: "set_for_next_next ns i t = Some ns'" and a: "list_all names_ok ns"
  from s obtain l old where i: "0 \<le> i" "i < int (length ns)" and n: "ns ! nat i = NT_FOR_NEXT l old"
    and r: "ns' = ns[nat i := NT_FOR_NEXT l t]"
    by (auto simp: set_for_next_next_def split: if_splits node_t.splits)
  from i n a have "l \<noteq> []"
    by (metis list_all_length names_ok_simps(5) nat_less_iff)
  with a show ?thesis unfolding r by (simp add: list_all_update)
qed

lemma patch_jumps_names:
  "patch_jumps ns i c = Inr ns' \<Longrightarrow> list_all names_ok ns \<Longrightarrow> list_all names_ok ns'"
  by (induction ns i c rule: patch_jumps.induct)
     (auto split: option.splits dest: set_jump_next_names)


lemma template_parse_if_names:
  "template_parse_if loadbuffer el attrs p = Inr p' \<Longrightarrow> list_all names_ok (nodes p)
   \<Longrightarrow> list_all names_ok (nodes p')"
  unfolding template_parse_if_def
  by (auto split: if_splits option.splits sum.splits list.splits block_t.splits
      dest!: set_if_next_names patch_jumps_names)

lemma template_parse_elseif_names:
  "template_parse_elseif loadbuffer el attrs p = Inr p' \<Longrightarrow> list_all names_ok (nodes p)
   \<Longrightarrow> list_all names_ok (nodes p')"
  unfolding template_parse_elseif_def Let_def
  by (auto split: if_splits option.splits sum.splits list.splits block_t.splits
      dest!: set_if_next_names)

lemma template_parse_else_names:
  "template_parse_else el p = Inr p' \<Longrightarrow> list_all names_ok (nodes p)
   \<Longrightarrow> list_all names_ok (nodes p')"
  unfolding template_parse_else_def Let_def
  by (auto split: if_splits option.splits sum.splits list.splits block_t.splits
      dest!: set_if_next_names)

lemma template_parse_for_names:
  "template_parse_for loadbuffer el attrs p = Inr p' \<Longrightarrow> list_all names_ok (nodes p)
   \<Longrightarrow> list_all names_ok (nodes p')"
  unfolding template_parse_for_def Let_def
  by (auto split: if_splits option.splits sum.splits list.splits block_t.splits
      dest!: set_for_next_next_names template_parse_names_Inr)

lemma template_parse_set_names:
  "template_parse_set loadbuffer el attrs p = Inr p' \<Longrightarrow> list_all names_ok (nodes p)
   \<Longrightarrow> list_all names_ok (nodes p')"
  unfolding template_parse_set_def
  by (auto split: if_splits option.splits sum.splits dest!: template_parse_names_Inr)

lemma template_parse_include_names:
  "template_parse_include loadbuffer el attrs p = Inr p' \<Longrightarrow> list_all names_ok (nodes p)
   \<Longrightarrow> list_all names_ok (nodes p')"
  unfolding template_parse_include_def
  by (auto split: if_splits option.splits sum.splits)

lemma template_parse_element_names:
  "template_parse_element loadbuffer name el attrs p = Inr p' \<Longrightarrow> list_all names_ok (nodes p)
   \<Longrightarrow> list_all names_ok (nodes p')"
  unfolding template_parse_element_def
  by (auto split: if_splits
      dest: template_parse_if_names template_parse_elseif_names template_parse_else_names
        template_parse_for_names template_parse_set_names template_parse_include_names)

lemma template_parse_sub_names:
  "template_parse_sub loadbuffer fl ex p = Inr p' \<Longrightarrow> list_all names_ok (nodes p)
   \<Longrightarrow> list_all names_ok (nodes p')"
  unfolding template_parse_sub_def
  by (auto split: if_splits option.splits sum.splits)

lemma parse_items_names:
  "parse_items loadbuffer is p = Inr p' \<Longrightarrow> list_all names_ok (nodes p)
   \<Longrightarrow> list_all names_ok (nodes p')"
proof (induction loadbuffer "is" p rule: parse_items.induct)
  case (1 loadbuffer p)
  then show ?case by simp
next
  case (2 loadbuffer name element attrs "is" p)
  then show ?case by (auto split: sum.splits dest: template_parse_element_names)
next
  case (3 loadbuffer flags expression "is" p)
  then show ?case by (auto split: sum.splits dest: template_parse_sub_names)
next
  case (4 loadbuffer raw "is" p)
  then show ?case by (auto simp: template_parse_raw_def)
qed


lemma template_parse_for_blank:
  assumes "\<forall>c \<in> set v. is_delim c" "attrs ''names'' = Some v" "el AND TEMPLATE_EOPEN \<noteq> 0"
  shows "\<exists>f. template_parse_for loadbuffer el attrs p = Inl f"
    and "attrs ''in'' = Some src \<Longrightarrow> loadbuffer (''return '' @ src) = Inr e
      \<Longrightarrow> template_parse_for loadbuffer el attrs p = Inl (Error (''empty '' @ quoted ''names''))"
  using assms template_parse_names_empty [OF assms(1)]
  by (auto simp: template_parse_for_def template_parse_expression_def
      split: option.splits sum.splits)

lemma template_parse_for_no_in:
  assumes "attrs ''in'' = None" "el AND TEMPLATE_EOPEN \<noteq> 0"
  shows "template_parse_for loadbuffer el attrs p = Inl (Error (''missing attribute '' @ quoted ''in''))"
  using assms by (simp add: template_parse_for_def)

lemma template_parse_for_bad_in:
  assumes "attrs ''in'' = Some src" "loadbuffer (''return '' @ src) = Inl msg"
    "el AND TEMPLATE_EOPEN \<noteq> 0"
  shows "template_parse_for loadbuffer el attrs p = Inl (Error msg)"
  using assms by (simp add: template_parse_for_def template_parse_expression_def)

lemma template_parse_set_blank:
  assumes "\<forall>c \<in> set v. is_delim c" "attrs ''names'' = Some v" "el AND TEMPLATE_EOPEN \<noteq> 0"
  shows "template_parse_set loadbuffer el attrs p = Inl (Error (''empty '' @ quoted ''names''))"
  using assms template_parse_names_empty [OF assms(1)]
  by (simp add: template_parse_set_def)

lemma parse_items_fail:
  assumes "x \<in> set is"
    and "\<And>p. \<exists>f. parse_items loadbuffer [x] p = Inl f"
  shows "\<exists>f. parse_items loadbuffer is p = Inl f"
  using assms(1)
proof (induction "is" arbitrary: p)
  case Nil
  then show ?case by simp
next
  case (Cons y ys)
  show ?case
  proof (cases "y = x")
    case True
    from assms(2) [of p] obtain f where "parse_items loadbuffer [x] p = Inl f" by blast
    with True show ?thesis by (cases x) (auto split: sum.splits)
  next
    case False
    with Cons.prems have "x \<in> set ys" by simp
    from Cons.IH [OF this] show ?thesis by (cases y) (auto split: sum.splits)
  qed
qed



lemma names_ok_nodes:
  "list_all names_ok ns \<Longrightarrow> n \<in> set ns
   \<Longrightarrow> (\<forall>l t. n = NT_FOR_NEXT l t \<longrightarrow> l \<noteq> []) \<and> (\<forall>l x. n = NT_SET l x \<longrightarrow> l \<noteq> [])"
proof -
  assume "list_all names_ok ns" "n \<in> set ns"
  then have "names_ok n" by (simp add: list_all_iff)
  then show ?thesis by auto
qed

lemma template_parse_names_ok:
  assumes "template_parse loadbuffer is = Inr ns"
  shows "list_all names_ok ns"
proof -
  from assms obtain p' where p: "parse_items loadbuffer is \<lparr>nodes = [], blocks = []\<rparr> = Inr p'"
    and n: "ns = nodes p'"
    unfolding template_parse_def by (auto split: sum.splits if_splits)
  from parse_items_names [OF p] show ?thesis unfolding n by simp
qed


lemma for_item_fails:
  assumes "\<forall>c \<in> set v. is_delim c" "attrs ''names'' = Some v" "el AND TEMPLATE_EOPEN \<noteq> 0"
  shows "\<exists>f. parse_items loadbuffer [Element ''for'' el attrs] q = Inl f"
proof -
  from template_parse_for_blank(1) [where v = v and attrs = attrs and el = el and loadbuffer = loadbuffer
      and p = q, OF assms]
  obtain g where g: "template_parse_for loadbuffer el attrs q = Inl g" ..
  have "template_parse_element loadbuffer ''for'' el attrs q = Inl g"
    unfolding template_parse_element_def g [symmetric] by simp
  then show ?thesis by simp
qed

lemma set_item_fails:
  assumes "\<forall>c \<in> set v. is_delim c" "attrs ''names'' = Some v" "el AND TEMPLATE_EOPEN \<noteq> 0"
  shows "\<exists>f. parse_items loadbuffer [Element ''set'' el attrs] q = Inl f"
proof -
  note g = template_parse_set_blank [where v = v and attrs = attrs and el = el and loadbuffer = loadbuffer
      and p = q, OF assms]
  have "template_parse_element loadbuffer ''set'' el attrs q = Inl (Error (''empty '' @ quoted ''names''))"
    unfolding template_parse_element_def g [symmetric] by simp
  then show ?thesis by simp
qed


text \<open>
  C10, as stated, fails for \<^verbatim>\<open>for\<close>: \<^verbatim>\<open>template_parse_for\<close> looks at the \<^verbatim>\<open>in\<close> attribute
  before it looks at \<^verbatim>\<open>names\<close>. The element \<^verbatim>\<open><l:for names=" ,">\<close> has a \<^verbatim>\<open>names\<close> value
  without a token, and its compilation fails with \<^verbatim>\<open>missing attribute 'in'\<close>, not with
  \<^verbatim>\<open>empty 'names'\<close>.
\<close>

theorem empty_names_counterexample:
  "is_delim (CHR '' '') \<and> is_delim (CHR '','') \<and> names_only_attrs ''names'' = Some '' ,''
   \<and> template_parse_for const_load 1 names_only_attrs \<lparr>nodes = [], blocks = []\<rparr>
       = Inl (Error (''missing attribute '' @ quoted ''in''))
   \<and> template_parse const_load [Element ''for'' 1 names_only_attrs]
       = Inl (Error (''missing attribute '' @ quoted ''in''))
   \<and> Error (''missing attribute '' @ quoted ''in'') \<noteq> Error (''empty '' @ quoted ''names'')"
proof -
  have d: "is_delim (CHR '' '')" "is_delim (CHR '','')" by (simp_all add: is_delim_def)
  have n: "names_only_attrs ''names'' = Some '' ,''" by (simp add: names_only_attrs_def)
  have i: "names_only_attrs ''in'' = None" by (simp add: names_only_attrs_def)
  have o: "(1 :: nat) AND TEMPLATE_EOPEN \<noteq> 0" by (simp add: TEMPLATE_EOPEN_def)
  have f: "template_parse_for const_load 1 names_only_attrs \<lparr>nodes = [], blocks = []\<rparr>
       = Inl (Error (''missing attribute '' @ quoted ''in''))"
    by (rule template_parse_for_no_in [where attrs = names_only_attrs and el = 1, OF i o])
  have t: "template_parse const_load [Element ''for'' 1 names_only_attrs]
       = Inl (Error (''missing attribute '' @ quoted ''in''))"
    using f by (simp add: template_parse_def template_parse_element_def)
  have ne: "Error (''missing attribute '' @ quoted ''in'') \<noteq> Error (''empty '' @ quoted ''names'')"
    by (simp add: quoted_def)
  show ?thesis by (intro conjI d n f t ne)
qed

text \<open>
  C10, amended: when the value of the \<^verbatim>\<open>names\<close> attribute has no token (it is empty or
  made of tabs, spaces and commas), \<^verbatim>\<open>template_parse_names\<close> fails with
  \<^verbatim>\<open>empty 'names'\<close>. An opening \<^verbatim>\<open>set\<close> element with such a value fails with that message.
  An opening \<^verbatim>\<open>for\<close> element with such a value never yields a parser state: it fails with
  \<^verbatim>\<open>missing attribute 'in'\<close> when it has no \<^verbatim>\<open>in\<close> attribute, with the message of the Lua
  compiler when the \<^verbatim>\<open>in\<close> expression does not compile, and with \<^verbatim>\<open>empty 'names'\<close>
  otherwise. A template with such an element does not compile; and in every compiled
  template the name list of each \<^verbatim>\<open>NT_FOR_NEXT\<close> and \<^verbatim>\<open>NT_SET\<close> node is not empty.
\<close>

theorem empty_names_rejected:
  assumes blank: "\<forall>c \<in> set v. is_delim c" and names: "attrs ''names'' = Some v"
    and opn: "el AND TEMPLATE_EOPEN \<noteq> 0"
  shows "template_parse_names v = Inl (Error (''empty '' @ quoted ''names''))
    \<and> (\<exists>f. template_parse_for loadbuffer el attrs p = Inl f)
    \<and> (attrs ''in'' = Some src \<and> loadbuffer (''return '' @ src) = Inr e
         \<longrightarrow> template_parse_for loadbuffer el attrs p = Inl (Error (''empty '' @ quoted ''names'')))
    \<and> template_parse_set loadbuffer el attrs p = Inl (Error (''empty '' @ quoted ''names''))
    \<and> (Element ''for'' el attrs \<in> set is \<or> Element ''set'' el attrs \<in> set is
         \<longrightarrow> (\<exists>f. template_parse loadbuffer is = Inl f))
    \<and> (\<forall>ns. template_parse loadbuffer is' = Inr ns \<longrightarrow>
          (\<forall>n \<in> set ns. (\<forall>l t. n = NT_FOR_NEXT l t \<longrightarrow> l \<noteq> [])
                       \<and> (\<forall>l x. n = NT_SET l x \<longrightarrow> l \<noteq> [])))
    \<and> (attrs ''in'' = None
         \<longrightarrow> template_parse_for loadbuffer el attrs p
               = Inl (Error (''missing attribute '' @ quoted ''in'')))
    \<and> (\<forall>src' msg. attrs ''in'' = Some src' \<and> loadbuffer (''return '' @ src') = Inl msg
         \<longrightarrow> template_parse_for loadbuffer el attrs p = Inl (Error msg))"
proof -
  have c1: "template_parse_names v = Inl (Error (''empty '' @ quoted ''names''))"
    by (rule template_parse_names_empty [OF blank])
  have c2: "\<exists>f. template_parse_for loadbuffer el attrs p = Inl f"
    by (rule template_parse_for_blank(1) [where v = v and attrs = attrs and el = el,
          OF blank names opn])
  have c3: "attrs ''in'' = Some src \<and> loadbuffer (''return '' @ src) = Inr e
         \<longrightarrow> template_parse_for loadbuffer el attrs p = Inl (Error (''empty '' @ quoted ''names''))"
  proof (rule impI)
    assume h: "attrs ''in'' = Some src \<and> loadbuffer (''return '' @ src) = Inr e"
    show "template_parse_for loadbuffer el attrs p = Inl (Error (''empty '' @ quoted ''names''))"
      by (rule template_parse_for_blank(2) [where v = v and attrs = attrs and el = el
          and loadbuffer = loadbuffer and src = src and e = e, OF blank names opn conjunct1 [OF h]
          conjunct2 [OF h]])
  qed
  have c4: "template_parse_set loadbuffer el attrs p = Inl (Error (''empty '' @ quoted ''names''))"
    by (rule template_parse_set_blank [where v = v and attrs = attrs and el = el,
          OF blank names opn])
  have c5: "Element ''for'' el attrs \<in> set is \<or> Element ''set'' el attrs \<in> set is
         \<longrightarrow> (\<exists>f. template_parse loadbuffer is = Inl f)"
  proof (rule impI)
    assume h: "Element ''for'' el attrs \<in> set is \<or> Element ''set'' el attrs \<in> set is"
    have "\<exists>f. parse_items loadbuffer is \<lparr>nodes = [], blocks = []\<rparr> = Inl f"
    proof (rule disjE [OF h])
      assume "Element ''for'' el attrs \<in> set is"
      then show ?thesis
        by (rule parse_items_fail)
           (rule for_item_fails [where v = v and attrs = attrs and el = el, OF blank names opn])
    next
      assume "Element ''set'' el attrs \<in> set is"
      then show ?thesis
        by (rule parse_items_fail)
           (rule set_item_fails [where v = v and attrs = attrs and el = el, OF blank names opn])
    qed
    then obtain g where "parse_items loadbuffer is \<lparr>nodes = [], blocks = []\<rparr> = Inl g" ..
    then show "\<exists>f. template_parse loadbuffer is = Inl f" by (simp add: template_parse_def)
  qed
  have c6: "\<forall>ns. template_parse loadbuffer is' = Inr ns \<longrightarrow>
          (\<forall>n \<in> set ns. (\<forall>l t. n = NT_FOR_NEXT l t \<longrightarrow> l \<noteq> [])
                       \<and> (\<forall>l x. n = NT_SET l x \<longrightarrow> l \<noteq> []))"
  proof (intro allI impI ballI)
    fix ns n
    assume t: "template_parse loadbuffer is' = Inr ns" and n: "n \<in> set ns"
    show "(\<forall>l t. n = NT_FOR_NEXT l t \<longrightarrow> l \<noteq> []) \<and> (\<forall>l x. n = NT_SET l x \<longrightarrow> l \<noteq> [])"
      by (rule names_ok_nodes [OF template_parse_names_ok [OF t] n])
  qed
  have c7: "attrs ''in'' = None
         \<longrightarrow> template_parse_for loadbuffer el attrs p
               = Inl (Error (''missing attribute '' @ quoted ''in''))"
  proof (rule impI)
    assume n: "attrs ''in'' = None"
    show "template_parse_for loadbuffer el attrs p
        = Inl (Error (''missing attribute '' @ quoted ''in''))"
      by (rule template_parse_for_no_in [where attrs = attrs and el = el, OF n opn])
  qed
  have c8: "\<forall>src' msg. attrs ''in'' = Some src' \<and> loadbuffer (''return '' @ src') = Inl msg
         \<longrightarrow> template_parse_for loadbuffer el attrs p = Inl (Error msg)"
  proof (intro allI impI)
    fix src' msg
    assume h: "attrs ''in'' = Some src' \<and> loadbuffer (''return '' @ src') = Inl msg"
    show "template_parse_for loadbuffer el attrs p = Inl (Error msg)"
      by (rule template_parse_for_bad_in [where src = src' and attrs = attrs and el = el
          and loadbuffer = loadbuffer and msg = msg, OF conjunct1 [OF h] conjunct2 [OF h] opn])
  qed
  show ?thesis
    by (rule conjI [OF c1 conjI [OF c2 conjI [OF c3 conjI [OF c4 conjI [OF c5
          conjI [OF c6 conjI [OF c7 c8]]]]]]])
qed


theorem empty_names_rejected_witness:
  "is_delim (CHR '' '') \<and> is_delim (CHR '','') \<and> blank_names_attrs ''names'' = Some '' ,''
   \<and> (1 :: nat) AND TEMPLATE_EOPEN \<noteq> 0
   \<and> template_parse_names '' ,'' = Inl (Error (''empty '' @ quoted ''names''))
   \<and> template_parse_for const_load 1 blank_names_attrs \<lparr>nodes = [], blocks = []\<rparr>
       = Inl (Error (''empty '' @ quoted ''names''))
   \<and> template_parse_set const_load 1 blank_names_attrs \<lparr>nodes = [], blocks = []\<rparr>
       = Inl (Error (''empty '' @ quoted ''names''))"
proof -
  have d: "is_delim (CHR '' '')" "is_delim (CHR '','')" by (simp_all add: is_delim_def)
  then have b: "\<forall>c \<in> set '' ,''. is_delim c" by simp
  have n: "blank_names_attrs ''names'' = Some '' ,''" by (simp add: blank_names_attrs_def)
  have i: "blank_names_attrs ''in'' = Some ''t''" by (simp add: blank_names_attrs_def)
  have l: "const_load (''return '' @ ''t'') = Inr 0" by (simp add: const_load_def)
  have o: "(1 :: nat) AND TEMPLATE_EOPEN \<noteq> 0" by (simp add: TEMPLATE_EOPEN_def)
  note T = empty_names_rejected [where v = "'' ,''" and attrs = blank_names_attrs and el = 1
      and loadbuffer = const_load and p = "\<lparr>nodes = [], blocks = []\<rparr>" and src = "''t''" and e = 0,
      OF b n o]
  note t1 = conjunct1 [OF T]
  note t3 = conjunct1 [OF conjunct2 [OF conjunct2 [OF T]], THEN mp, OF conjI [OF i l]]
  note t4 = conjunct1 [OF conjunct2 [OF conjunct2 [OF conjunct2 [OF T]]]]
  show ?thesis
    by (rule conjI [OF d(1) conjI [OF d(2) conjI [OF n conjI [OF o conjI [OF t1 conjI [OF t3 t4]]]]]])
qed

subsection \<open>The encoder of a substitution\<close>

lemma template_parse_flags_n:
  "set fs \<subseteq> {CHR ''n''} \<Longrightarrow> v = 0 \<or> v = TEMPLATE_FSUPNIL
   \<Longrightarrow> template_parse_flags fs v = Inr (if fs = [] then v else TEMPLATE_FSUPNIL)"
proof (induction fs arbitrary: v)
  case Nil
  then show ?case by simp
next
  case (Cons f fs)
  then have f: "f = CHR ''n''" and fs: "set fs \<subseteq> {CHR ''n''}" by auto
  have o: "v OR TEMPLATE_FSUPNIL = TEMPLATE_FSUPNIL"
    using Cons.prems(2) by (auto simp: TEMPLATE_FSUPNIL_def)
  have "template_parse_flags (f # fs) v = template_parse_flags fs TEMPLATE_FSUPNIL"
    unfolding f by (simp add: o)
  also have "\<dots> = Inr (if fs = [] then TEMPLATE_FSUPNIL else TEMPLATE_FSUPNIL)"
    by (rule Cons.IH [OF fs]) simp
  finally show ?case by simp
qed

lemma sub_encode_xml: "sub_encode TEMPLATE_FESCXML str = Some (escape_xml str)"
  by (simp add: sub_encode_def TEMPLATE_FESCXML_def TEMPLATE_FESC_def)

lemma sub_encode_none:
  "fl = 0 \<or> fl = TEMPLATE_FSUPNIL \<Longrightarrow> sub_encode fl str = Some str"
  by (auto simp: sub_encode_def TEMPLATE_FESCXML_def TEMPLATE_FESC_def TEMPLATE_FSUPNIL_def
      TEMPLATE_FESCURL_def TEMPLATE_FESCJS_def)

lemma escape_xml_Cons:
  "escape_xml (c # s) =
     (if c = CHR ''&'' then ''&amp;'' else if c = CHR ''<'' then ''&lt;''
      else if c = CHR ''>'' then ''&gt;'' else [c]) @ escape_xml s"
  by (simp add: escape_xml_def)

lemma escape_xml_Nil: "escape_xml [] = []"
  by (simp add: escape_xml_def)


lemma render_sub:
  assumes "template_eval L e 1 (world s) = Inr (vs, w)"
    and "sub_encode fl (sub_string fl (hd vs)) = Some bytes"
  shows "render_node L inc (NT_SUB e fl) s
    = Some (Inr (s\<lparr>ip := ip s + 1, world := w, out := out s @ bytes\<rparr>))"
  using assms by (simp add: render_node_def)

lemma template_parse_sub_None:
  "template_parse_sub loadbuffer None ex p = Inr p'
   \<Longrightarrow> \<exists>e'. nodes p' = nodes p @ [NT_SUB e' TEMPLATE_FESCXML]"
  by (auto simp: template_parse_sub_def split: sum.splits)

lemma template_parse_sub_n:
  assumes "set fs \<subseteq> {CHR ''n''}" "template_parse_sub loadbuffer (Some fs) ex p = Inr p'"
  shows "\<exists>e' fl. nodes p' = nodes p @ [NT_SUB e' fl] \<and> (fl = 0 \<or> fl = TEMPLATE_FSUPNIL)"
proof -
  have "template_parse_flags fs 0 = Inr (if fs = [] then 0 else TEMPLATE_FSUPNIL)"
    by (rule template_parse_flags_n [OF assms(1)]) simp
  with assms(2) show ?thesis
    by (auto simp: template_parse_sub_def split: sum.splits if_splits)
qed

text \<open>
  C4, amended: a substitution without a flags bracket gets the flags \<^verbatim>\<open>TEMPLATE_FESCXML\<close>
  and its string is written through the XML encoder (\<^verbatim>\<open>&\<close>, \<^verbatim>\<open><\<close>, \<^verbatim>\<open>>\<close> become
  \<^verbatim>\<open>&amp;\<close>, \<^verbatim>\<open>&lt;\<close>, \<^verbatim>\<open>&gt;\<close>, every other byte is written as it is); a substitution
  with a bracket that selects none of \<^verbatim>\<open>x\<close>, \<^verbatim>\<open>u\<close>, \<^verbatim>\<open>j\<close> (it is empty or holds only
  \<^verbatim>\<open>n\<close>) gets flags without an encoder, and its string is written as it is.
\<close>

theorem sub_encoder_selection:
  assumes ev: "template_eval L e 1 (world s) = Inr (vs, w)"
  shows "(template_parse_sub loadbuffer None ex p = Inr p'
           \<longrightarrow> (\<exists>e'. nodes p' = nodes p @ [NT_SUB e' TEMPLATE_FESCXML]))
    \<and> render_node L inc (NT_SUB e TEMPLATE_FESCXML) s
        = Some (Inr (s\<lparr>ip := ip s + 1, world := w,
             out := out s @ escape_xml (sub_string TEMPLATE_FESCXML (hd vs))\<rparr>))
    \<and> escape_xml [] = []
    \<and> (\<forall>c str. escape_xml (c # str) =
          (if c = CHR ''&'' then ''&amp;'' else if c = CHR ''<'' then ''&lt;''
           else if c = CHR ''>'' then ''&gt;'' else [c]) @ escape_xml str)
    \<and> (set fs \<subseteq> {CHR ''n''} \<and> template_parse_sub loadbuffer (Some fs) ex p = Inr p''
         \<longrightarrow> (\<exists>e' fl. nodes p'' = nodes p @ [NT_SUB e' fl] \<and> (fl = 0 \<or> fl = TEMPLATE_FSUPNIL)))
    \<and> (fl = 0 \<or> fl = TEMPLATE_FSUPNIL
         \<longrightarrow> render_node L inc (NT_SUB e fl) s
              = Some (Inr (s\<lparr>ip := ip s + 1, world := w,
                   out := out s @ sub_string fl (hd vs)\<rparr>)))"
proof -
  have c1: "template_parse_sub loadbuffer None ex p = Inr p'
           \<longrightarrow> (\<exists>e'. nodes p' = nodes p @ [NT_SUB e' TEMPLATE_FESCXML])"
    by (rule impI) (rule template_parse_sub_None)
  have c2: "render_node L inc (NT_SUB e TEMPLATE_FESCXML) s
        = Some (Inr (s\<lparr>ip := ip s + 1, world := w,
             out := out s @ escape_xml (sub_string TEMPLATE_FESCXML (hd vs))\<rparr>))"
    by (rule render_sub [OF ev sub_encode_xml])
  have c4: "\<forall>c str. escape_xml (c # str) =
          (if c = CHR ''&'' then ''&amp;'' else if c = CHR ''<'' then ''&lt;''
           else if c = CHR ''>'' then ''&gt;'' else [c]) @ escape_xml str"
    by (intro allI) (rule escape_xml_Cons)
  have c5: "set fs \<subseteq> {CHR ''n''} \<and> template_parse_sub loadbuffer (Some fs) ex p = Inr p''
         \<longrightarrow> (\<exists>e' fl. nodes p'' = nodes p @ [NT_SUB e' fl] \<and> (fl = 0 \<or> fl = TEMPLATE_FSUPNIL))"
  proof (rule impI)
    assume h: "set fs \<subseteq> {CHR ''n''} \<and> template_parse_sub loadbuffer (Some fs) ex p = Inr p''"
    show "\<exists>e' fl. nodes p'' = nodes p @ [NT_SUB e' fl] \<and> (fl = 0 \<or> fl = TEMPLATE_FSUPNIL)"
      by (rule template_parse_sub_n [OF conjunct1 [OF h] conjunct2 [OF h]])
  qed
  have c6: "fl = 0 \<or> fl = TEMPLATE_FSUPNIL
         \<longrightarrow> render_node L inc (NT_SUB e fl) s
              = Some (Inr (s\<lparr>ip := ip s + 1, world := w,
                   out := out s @ sub_string fl (hd vs)\<rparr>))"
  proof (rule impI)
    assume h: "fl = 0 \<or> fl = TEMPLATE_FSUPNIL"
    show "render_node L inc (NT_SUB e fl) s
              = Some (Inr (s\<lparr>ip := ip s + 1, world := w,
                   out := out s @ sub_string fl (hd vs)\<rparr>))"
      by (rule render_sub [OF ev sub_encode_none [OF h]])
  qed
  show ?thesis
    by (rule conjI [OF c1 conjI [OF c2 conjI [OF escape_xml_Nil conjI [OF c4 conjI [OF c5 c6]]]]])
qed

lemma example_eval: "template_eval example_lua 0 1 () = Inr ([String ''<''], ())"
  by (simp add: template_eval_def example_lua_def adjust_def)

lemma example_parse_n:
  "template_parse_sub example_load (Some ''n'') ''x'' \<lparr>nodes = [], blocks = []\<rparr>
    = Inr \<lparr>nodes = [NT_SUB 0 TEMPLATE_FSUPNIL], blocks = []\<rparr>"
  by (simp add: template_parse_sub_def template_parse_expression_def example_load_def
      TEMPLATE_FSUPNIL_def)

lemma example_sub_string: "sub_string fl (String ''<'') = ''<''"
  by (simp add: sub_string_def lua_isstring_def lua_tostring_def c_str_def)

text \<open>
  C4, as stated, fails: \<^verbatim>\<open>$[n]{x}\<close> compiles to a node with the flags
  \<^verbatim>\<open>TEMPLATE_FSUPNIL\<close> alone, and rendering it for the value \<^verbatim>\<open><\<close> writes \<^verbatim>\<open><\<close>, which
  the XML encoder would have written as \<^verbatim>\<open>&lt;\<close>.
\<close>

theorem sub_encoder_counterexample:
  "template_parse_sub example_load (Some ''n'') ''x'' \<lparr>nodes = [], blocks = []\<rparr>
    = Inr \<lparr>nodes = [NT_SUB 0 TEMPLATE_FSUPNIL], blocks = []\<rparr>
   \<and> render_node example_lua no_include (NT_SUB 0 TEMPLATE_FSUPNIL)
        \<lparr>ip = 0, stack = [], world = (), out = []\<rparr>
      = Some (Inr \<lparr>ip = 1, stack = [], world = (), out = ''<''\<rparr>)
   \<and> escape_xml ''<'' = ''&lt;''"
proof -
  have e: "template_eval example_lua 0 1 (world \<lparr>ip = 0, stack = [], world = (), out = []\<rparr>)
      = Inr ([String ''<''], ())"
    using example_eval by simp
  have n: "sub_encode TEMPLATE_FSUPNIL (sub_string TEMPLATE_FSUPNIL (hd [String ''<''])) = Some ''<''"
    by (simp add: example_sub_string sub_encode_none)
  have r: "render_node example_lua no_include (NT_SUB 0 TEMPLATE_FSUPNIL)
        \<lparr>ip = 0, stack = [], world = (), out = []\<rparr>
      = Some (Inr \<lparr>ip = 1, stack = [], world = (), out = ''<''\<rparr>)"
    using render_sub [OF e n] by simp
  have x: "escape_xml ''<'' = ''&lt;''" by (simp add: escape_xml_def)
  show ?thesis by (rule conjI [OF example_parse_n conjI [OF r x]])
qed

theorem sub_encoder_selection_witness:
  "template_eval example_lua 0 1 (world \<lparr>ip = 0, stack = [], world = (), out = []\<rparr>)
      = Inr ([String ''<''], ())
   \<and> render_node example_lua no_include (NT_SUB 0 TEMPLATE_FESCXML)
        \<lparr>ip = 0, stack = [], world = (), out = []\<rparr>
      = Some (Inr \<lparr>ip = 1, stack = [], world = (), out = ''&lt;''\<rparr>)"
proof -
  have e: "template_eval example_lua 0 1 (world \<lparr>ip = 0, stack = [], world = (), out = []\<rparr>)
      = Inr ([String ''<''], ())"
    using example_eval by simp
  have x: "escape_xml ''<'' = ''&lt;''" by (simp add: escape_xml_def)
  from conjunct1 [OF conjunct2 [OF sub_encoder_selection [OF e]]]
  have "render_node example_lua inc (NT_SUB 0 TEMPLATE_FESCXML)
        \<lparr>ip = 0, stack = [], world = (), out = []\<rparr>
      = Some (Inr \<lparr>ip = 1, stack = [], world = (), out = ''&lt;''\<rparr>)" for inc
    by (simp add: example_sub_string x)
  with e show ?thesis by simp
qed

subsection \<open>Backpatching\<close>

lemma chain_jumps_le: "chain_jumps ns i c = Some (js, f) \<Longrightarrow> i \<le> f \<and> (\<forall>j \<in> set js. i < j \<and> j < f)"
proof (induction c arbitrary: i js f)
  case 0
  then show ?case by simp
next
  case (Suc c)
  from Suc.prems obtain e nx js' where i: "i < length ns" and n: "ns ! i = NT_IF e nx"
    and c: "int i + 1 < nx" "nx \<le> int (length ns)" "ns ! (nat nx - 1) = NT_JUMP (- 1)"
    and r: "chain_jumps ns (nat nx) c = Some (js', f)" and js: "js = (nat nx - 1) # js'"
    by (auto split: if_splits node_t.splits option.splits)
  from Suc.IH [OF r] have "nat nx \<le> f" "\<forall>j \<in> set js'. nat nx < j \<and> j < f" by simp_all
  with c show ?case unfolding js by auto
qed

lemma chain_jumps_append:
  "chain_jumps ns i c = Some r \<Longrightarrow> chain_jumps (ns @ xs) i c = Some r"
proof (induction c arbitrary: i r)
  case 0
  then show ?case by simp
next
  case (Suc c)
  from Suc.prems obtain e nx js' f where i: "i < length ns" and n: "ns ! i = NT_IF e nx"
    and c: "int i + 1 < nx" "nx \<le> int (length ns)" "ns ! (nat nx - 1) = NT_JUMP (- 1)"
    and r: "chain_jumps ns (nat nx) c = Some (js', f)" and res: "r = ((nat nx - 1) # js', f)"
    by (auto split: if_splits node_t.splits option.splits)
  have j: "nat nx - 1 < length ns" using c by auto
  from Suc.IH [OF r] i n c j show ?case unfolding res by (simp add: nth_append)
qed

lemma chain_jumps_update_ge:
  "chain_jumps ns i c = Some (js, f) \<Longrightarrow> f \<le> k \<Longrightarrow> chain_jumps (ns[k := y]) i c = Some (js, f)"
proof (induction c arbitrary: i js f)
  case 0
  then show ?case by simp
next
  case (Suc c)
  from Suc.prems obtain e nx js' where i: "i < length ns" and n: "ns ! i = NT_IF e nx"
    and c: "int i + 1 < nx" "nx \<le> int (length ns)" "ns ! (nat nx - 1) = NT_JUMP (- 1)"
    and r: "chain_jumps ns (nat nx) c = Some (js', f)" and js: "js = (nat nx - 1) # js'"
    by (auto split: if_splits node_t.splits option.splits)
  from chain_jumps_le [OF r] have "nat nx \<le> f" by simp
  with Suc.prems(2) c have ne: "i \<noteq> k" "nat nx - 1 \<noteq> k" by auto
  from Suc.IH [OF r Suc.prems(2)] i n c ne show ?case unfolding js by simp
qed

lemma chain_jumps_update_lt:
  "k < i \<Longrightarrow> chain_jumps (ns[k := y]) i c = chain_jumps ns i c"
proof (induction c arbitrary: i)
  case 0
  then show ?case by simp
next
  case (Suc c)
  show ?case
  proof (cases "i < length ns")
    case False
    then show ?thesis by simp
  next
    case True
    show ?thesis
    proof (cases "ns ! i")
      case (NT_IF e nx)
      show ?thesis
      proof (cases "int i + 1 < nx")
        case lt: True
        then have k: "k < nat nx" "k \<noteq> nat nx - 1" using Suc.prems by auto
        from Suc.IH [OF k(1)] True NT_IF Suc.prems k lt show ?thesis by simp
      next
        case False
        with True NT_IF Suc.prems show ?thesis by simp
      qed
    qed (use True Suc.prems in simp_all)
  qed
qed

lemma chain_jumps_snoc:
  "chain_jumps ns i c = Some (js, f) \<Longrightarrow> f < length ns \<Longrightarrow> ns ! f = NT_IF e nx
   \<Longrightarrow> int f + 1 < nx \<Longrightarrow> nx \<le> int (length ns) \<Longrightarrow> ns ! (nat nx - 1) = NT_JUMP (- 1)
   \<Longrightarrow> chain_jumps ns i (Suc c) = Some (js @ [nat nx - 1], nat nx)"
proof (induction c arbitrary: i js)
  case 0
  then show ?case by simp
next
  case (Suc c)
  from Suc.prems(1) obtain e' nx' js' where i: "i < length ns" and n: "ns ! i = NT_IF e' nx'"
    and c: "int i + 1 < nx'" "nx' \<le> int (length ns)" "ns ! (nat nx' - 1) = NT_JUMP (- 1)"
    and r: "chain_jumps ns (nat nx') c = Some (js', f)" and js: "js = (nat nx' - 1) # js'"
    by (auto split: if_splits node_t.splits option.splits)
  from Suc.IH [OF r Suc.prems(2-6)]
  have "chain_jumps ns (nat nx') (Suc c) = Some (js' @ [nat nx - 1], nat nx)" .
  with i n c show ?case unfolding js by (simp del: chain_jumps.simps(2) add: chain_jumps.simps(2) [of ns i])
qed


lemma skeleton_append: "skeleton ns b = Some P \<Longrightarrow> skeleton (ns @ xs) b = Some P"
proof (cases b)
  case (Block_IF st last cnt)
  assume s: "skeleton ns b = Some P"
  then obtain js f where st: "0 \<le> st" and c: "chain_jumps ns (nat st) cnt = Some (js, f)"
    unfolding Block_IF skeleton_def by (auto split: if_splits option.splits)
  note c' = chain_jumps_append [OF c, of xs]
  show ?thesis
  proof (cases "last = - 1")
    case True
    with s st c c' show ?thesis unfolding Block_IF skeleton_def
      by (auto split: if_splits)
  next
    case False
    with s st c have f: "int f = last" "f < length ns"
      unfolding Block_IF skeleton_def by (auto split: if_splits)
    with False s st c c' show ?thesis unfolding Block_IF skeleton_def
      by (auto simp: nth_append split: if_splits)
  qed
next
  case (Block_FOR_NEXT fs)
  assume s: "skeleton ns b = Some P"
  then have "0 < fs" "fs < int (length ns)"
    unfolding Block_FOR_NEXT skeleton_def by (auto split: if_splits)
  then have "nat fs < length ns" "nat fs - 1 < length ns" by auto
  with s show ?thesis unfolding Block_FOR_NEXT skeleton_def
    by (auto simp: nth_append split: if_splits)
qed

lemma skeleton_bound:
  "skeleton ns b = Some P \<Longrightarrow> block_start b \<le> length ns \<and> (\<forall>x \<in> P. block_start b \<le> x \<and> x < length ns)"
proof (cases b)
  case (Block_IF st last cnt)
  assume s: "skeleton ns b = Some P"
  then obtain js f where st: "0 \<le> st" and c: "chain_jumps ns (nat st) cnt = Some (js, f)"
    unfolding Block_IF skeleton_def by (auto split: if_splits option.splits)
  from chain_jumps_le [OF c] have l: "nat st \<le> f" "\<forall>j \<in> set js. nat st < j \<and> j < f" by simp_all
  from s st c have "(P = set js \<and> f \<le> length ns) \<or> (P = insert f (set js) \<and> f < length ns)"
    unfolding Block_IF skeleton_def by (auto split: if_splits)
  with l show ?thesis unfolding Block_IF block_start_def by fastforce
next
  case (Block_FOR_NEXT fs)
  assume s: "skeleton ns b = Some P"
  then show ?thesis unfolding Block_FOR_NEXT skeleton_def block_start_def
    by (auto split: if_splits)
qed

lemma skeleton_prefix:
  assumes "skeleton (take m ns) b = Some P" and "take m ns' = take m ns"
  shows "skeleton ns' b = Some P"
proof -
  have "skeleton (take m ns' @ drop m ns') b = Some P"
    unfolding assms(2) by (rule skeleton_append [OF assms(1)])
  then show ?thesis by simp
qed

lemma stack_pending_prefix:
  assumes "stack_pending (take m ns) st = Some Q" and "take m ns' = take m ns"
  shows "stack_pending ns' st = Some Q"
proof (cases st)
  case Nil
  with assms show ?thesis by simp
next
  case (Cons b bs)
  with assms(1) obtain P Q2 where sk: "skeleton (take m ns) b = Some P"
    and sp: "stack_pending (take (block_start b) (take m ns)) bs = Some Q2" and q: "Q = P \<union> Q2"
    by (auto split: option.splits)
  from skeleton_bound [OF sk] have "block_start b \<le> m" by simp
  then have "take (block_start b) ns' = take (block_start b) (take m ns)"
    unfolding assms(2) [symmetric] by (simp add: min_def)
  with skeleton_prefix [OF sk assms(2)] sp q show ?thesis unfolding Cons by simp
qed

lemma stack_pending_append:
  "stack_pending ns st = Some Q \<Longrightarrow> stack_pending (ns @ xs) st = Some Q"
  using stack_pending_prefix [of "length ns" ns st Q "ns @ xs"] by simp

lemma stack_pending_bound:
  "stack_pending ns st = Some Q \<Longrightarrow> \<forall>x \<in> Q. x < length ns"
proof (induction st arbitrary: ns Q)
  case Nil
  then show ?case by simp
next
  case (Cons b bs)
  from Cons.prems obtain P Q2 where sk: "skeleton ns b = Some P"
    and sp: "stack_pending (take (block_start b) ns) bs = Some Q2" and q: "Q = P \<union> Q2"
    by (auto split: option.splits)
  from Cons.IH [OF sp] skeleton_bound [OF sk] show ?case unfolding q by auto
qed

lemma stack_pending_lower:
  "stack_pending (take m ns) st = Some Q \<Longrightarrow> \<forall>x \<in> Q. x < m"
  using stack_pending_bound [of "take m ns" st Q] by simp

lemma resolved_append:
  assumes "resolved ns P" and "\<forall>x < length xs. \<forall>t. target (xs ! x) = Some t
      \<longrightarrow> length ns + x \<in> P' \<or> (0 \<le> t \<and> t \<le> int (length ns + length xs))"
    and "P \<subseteq> P'"
  shows "resolved (ns @ xs) P'"
  unfolding resolved_def
proof (intro allI impI)
  fix x t
  assume x: "x < length (ns @ xs)" and t: "target ((ns @ xs) ! x) = Some t"
  show "x \<in> P' \<or> (0 \<le> t \<and> t \<le> int (length (ns @ xs)))"
  proof (cases "x < length ns")
    case True
    with t have "target (ns ! x) = Some t" by (simp add: nth_append)
    with assms(1) True have "x \<in> P \<or> (0 \<le> t \<and> t \<le> int (length ns))"
      unfolding resolved_def by blast
    with assms(3) show ?thesis by auto
  next
    case False
    define y where "y = x - length ns"
    from False x have y: "y < length xs" "x = length ns + y" by (auto simp: y_def)
    with t have "target (xs ! y) = Some t" by (simp add: nth_append)
    with assms(2) y show ?thesis by auto
  qed
qed


lemma parser_invE:
  assumes "parser_inv p"
  obtains P where "stack_pending (nodes p) (rev (blocks p)) = Some P" "resolved (nodes p) P"
  using assms unfolding parser_inv_def by (auto split: option.splits)

lemma parser_invI:
  "stack_pending (nodes p) (rev (blocks p)) = Some P \<Longrightarrow> resolved (nodes p) P \<Longrightarrow> parser_inv p"
  unfolding parser_inv_def by simp

lemma inv_append_plain:
  assumes "parser_inv p" and "target x = None"
  shows "parser_inv (p\<lparr>nodes := nodes p @ [x]\<rparr>)"
proof -
  from assms(1) obtain P where sp: "stack_pending (nodes p) (rev (blocks p)) = Some P"
    and r: "resolved (nodes p) P" by (rule parser_invE)
  have "resolved (nodes p @ [x]) P"
    by (rule resolved_append [OF r]) (simp_all add: assms(2))
  with stack_pending_append [OF sp, of "[x]"] show ?thesis
    by (intro parser_invI [where P = P]) simp_all
qed

lemma patch_jumps_chain:
  "chain_jumps ns (nat i) c = Some (js, f) \<Longrightarrow> 0 \<le> i
   \<Longrightarrow> \<exists>ns'. patch_jumps ns i c = Inr ns' \<and> length ns' = length ns
        \<and> (\<forall>x < length ns. ns' ! x = (if x \<in> set js then NT_JUMP (int (length ns)) else ns ! x))"
proof (induction c arbitrary: ns i js)
  case 0
  then show ?case by simp
next
  case (Suc c)
  from Suc.prems(1) obtain e nx js' where i: "nat i < length ns" and n: "ns ! nat i = NT_IF e nx"
    and c: "int (nat i) + 1 < nx" "nx \<le> int (length ns)" "ns ! (nat nx - 1) = NT_JUMP (- 1)"
    and r: "chain_jumps ns (nat nx) c = Some (js', f)" and js: "js = (nat nx - 1) # js'"
    by (auto split: if_splits node_t.splits option.splits)
  define ns1 where "ns1 = ns[nat nx - 1 := NT_JUMP (int (length ns))]"
  have g: "get_if_next ns i = Some nx"
    using i n Suc.prems(2) by (simp add: get_if_next_def)
  have nx: "0 \<le> nx - 1" "nx - 1 < int (length ns)" "nat (nx - 1) = nat nx - 1" "0 \<le> nx"
    using c Suc.prems(2) by auto
  have sj: "set_jump_next ns (nx - 1) (int (length ns)) = Some ns1"
    using nx c(3) by (simp add: set_jump_next_def ns1_def)
  have pos: "nat nx - 1 < nat nx" using c Suc.prems(2) by linarith
  have r1: "chain_jumps ns1 (nat nx) c = Some (js', f)"
    unfolding ns1_def chain_jumps_update_lt [OF pos] by (rule r)
  from Suc.IH [OF r1 nx(4)] obtain ns' where p: "patch_jumps ns1 nx c = Inr ns'"
    and l: "length ns' = length ns1"
    and v: "\<forall>x < length ns1. ns' ! x = (if x \<in> set js' then NT_JUMP (int (length ns1)) else ns1 ! x)"
    by blast
  have l1: "length ns1 = length ns" by (simp add: ns1_def)
  from chain_jumps_le [OF r] have notin: "nat nx - 1 \<notin> set js'" by auto
  have "\<forall>x < length ns. ns' ! x = (if x \<in> set js then NT_JUMP (int (length ns)) else ns ! x)"
  proof (intro allI impI)
    fix x assume x: "x < length ns"
    with v l1 have "ns' ! x = (if x \<in> set js' then NT_JUMP (int (length ns)) else ns1 ! x)" by simp
    then show "ns' ! x = (if x \<in> set js then NT_JUMP (int (length ns)) else ns ! x)"
      using x notin unfolding js ns1_def by (auto simp: nth_list_update)
  qed
  with p l l1 g sj show ?case by simp
qed


lemma inv_if_open:
  assumes "parser_inv p"
  shows "parser_inv (p\<lparr>blocks := blocks p @
            [Block_IF (int (length (nodes p))) (int (length (nodes p))) 0],
          nodes := nodes p @ [NT_IF e (- 1)]\<rparr>)"
proof -
  from assms obtain P where sp: "stack_pending (nodes p) (rev (blocks p)) = Some P"
    and r: "resolved (nodes p) P" by (rule parser_invE)
  let ?n = "length (nodes p)"
  let ?ns = "nodes p @ [NT_IF e (- 1)]"
  have sk: "skeleton ?ns (Block_IF (int ?n) (int ?n) 0) = Some {?n}"
    by (simp add: skeleton_def)
  have sp': "stack_pending ?ns (Block_IF (int ?n) (int ?n) 0 # rev (blocks p)) = Some ({?n} \<union> P)"
    using sk sp by (simp add: block_start_def)
  have "resolved ?ns ({?n} \<union> P)"
    by (rule resolved_append [OF r]) auto
  with sp' show ?thesis by (intro parser_invI [where P = "{?n} \<union> P"]) simp_all
qed

lemma inv_for_open:
  assumes "parser_inv p"
  shows "parser_inv (p\<lparr>blocks := blocks p @ [Block_FOR_NEXT (int (length (nodes p)) + 1)],
          nodes := nodes p @ [NT_FOR_INIT e, NT_FOR_NEXT l (- 1)]\<rparr>)"
proof -
  from assms obtain P where sp: "stack_pending (nodes p) (rev (blocks p)) = Some P"
    and r: "resolved (nodes p) P" by (rule parser_invE)
  let ?n = "length (nodes p)"
  let ?ns = "nodes p @ [NT_FOR_INIT e, NT_FOR_NEXT l (- 1)]"
  have n1: "nat (int ?n + 1) = Suc ?n" by simp
  have sk: "skeleton ?ns (Block_FOR_NEXT (int ?n + 1)) = Some {Suc ?n}"
    unfolding skeleton_def by (simp add: n1 nth_append)
  have tk: "take (Suc ?n) ?ns = nodes p @ [NT_FOR_INIT e]" by simp
  have "stack_pending (nodes p @ [NT_FOR_INIT e]) (rev (blocks p)) = Some P"
    by (rule stack_pending_append [OF sp])
  then have sp': "stack_pending ?ns (Block_FOR_NEXT (int ?n + 1) # rev (blocks p))
      = Some ({Suc ?n} \<union> P)"
    using sk by (simp add: block_start_def n1 tk del: take_Suc_conv_app_nth)
  have "resolved ?ns ({Suc ?n} \<union> P)"
    by (rule resolved_append [OF r]) (auto simp: target_def less_Suc_eq)
  with sp' show ?thesis by (intro parser_invI [where P = "{Suc ?n} \<union> P"]) simp_all
qed


lemma take_eq_if_same_below:
  assumes "length ns' = length ns" and "\<forall>x < m. x < length ns \<longrightarrow> ns' ! x = ns ! x"
  shows "take m ns' = take m ns"
  using assms by (intro nth_equalityI) auto

lemma if_close_inv:
  assumes inv: "parser_inv p" and top: "rev (blocks p) = Block_IF s l c # bs"
  shows "\<exists>ns ns' js f.
     (if l \<noteq> - 1 then set_if_next (nodes p) l (int (length (nodes p))) else Some (nodes p)) = Some ns
     \<and> patch_jumps ns s c = Inr ns'
     \<and> parser_inv (p\<lparr>blocks := rev bs, nodes := ns'\<rparr>)
     \<and> 0 \<le> s \<and> chain_jumps (nodes p) (nat s) c = Some (js, f)
     \<and> (l \<noteq> - 1 \<longrightarrow> int f = l)
     \<and> length ns' = length (nodes p)
     \<and> (\<forall>x < length (nodes p). ns' ! x =
           (if x \<in> set js then NT_JUMP (int (length (nodes p)))
            else if l \<noteq> - 1 \<and> x = f
              then (case nodes p ! x of NT_IF e t \<Rightarrow> NT_IF e (int (length (nodes p))) | n \<Rightarrow> n)
            else nodes p ! x))"
proof -
  let ?ns0 = "nodes p"
  let ?n = "int (length ?ns0)"
  from inv obtain P where sp: "stack_pending ?ns0 (rev (blocks p)) = Some P"
    and r: "resolved ?ns0 P" by (rule parser_invE)
  from sp obtain P1 Q where sk: "skeleton ?ns0 (Block_IF s l c) = Some P1"
    and spq: "stack_pending (take (nat s) ?ns0) bs = Some Q" and P: "P = P1 \<union> Q"
    unfolding top by (auto simp: block_start_def split: option.splits)
  from sk obtain js f where s0: "0 \<le> s" and ch: "chain_jumps ?ns0 (nat s) c = Some (js, f)"
    unfolding skeleton_def by (auto split: if_splits option.splits)
  from chain_jumps_le [OF ch] have fs: "nat s \<le> f" and jsb: "\<forall>j \<in> set js. nat s < j \<and> j < f"
    by simp_all
  define ns where "ns = (if l \<noteq> - 1
      then ?ns0[f := (case ?ns0 ! f of NT_IF e t \<Rightarrow> NT_IF e ?n | n \<Rightarrow> n)] else ?ns0)"
  have lns: "length ns = length ?ns0" by (simp add: ns_def)
  have P1: "P1 = (if l \<noteq> - 1 then insert f (set js) else set js)"
    and fl: "l \<noteq> - 1 \<longrightarrow> int f = l \<and> f < length ?ns0 \<and> (\<exists>e. ?ns0 ! f = NT_IF e (- 1))"
    using sk s0 ch unfolding skeleton_def by (auto split: if_splits node_t.splits)
  have set: "(if l \<noteq> - 1 then set_if_next ?ns0 l ?n else Some ?ns0) = Some ns"
  proof (cases "l = - 1")
    case True
    then show ?thesis by (simp add: ns_def)
  next
    case False
    with fl obtain e where "int f = l" "f < length ?ns0" "?ns0 ! f = NT_IF e (- 1)" by blast
    with False show ?thesis by (auto simp: ns_def set_if_next_def)
  qed
  have ch': "chain_jumps ns (nat s) c = Some (js, f)"
    unfolding ns_def using ch by (simp add: chain_jumps_update_ge)
  from patch_jumps_chain [OF ch' s0] obtain ns' where pj: "patch_jumps ns s c = Inr ns'"
    and l': "length ns' = length ns"
    and v: "\<forall>x < length ns. ns' ! x = (if x \<in> set js then NT_JUMP (int (length ns)) else ns ! x)"
    by blast
  have val: "\<forall>x < length ?ns0. ns' ! x =
           (if x \<in> set js then NT_JUMP ?n
            else if l \<noteq> - 1 \<and> x = f
              then (case ?ns0 ! x of NT_IF e t \<Rightarrow> NT_IF e ?n | n \<Rightarrow> n)
            else ?ns0 ! x)"
    using v lns unfolding ns_def by (auto simp: nth_list_update)
  have tk: "take (nat s) ns' = take (nat s) ?ns0"
  proof (rule take_eq_if_same_below)
    show "length ns' = length ?ns0" using l' lns by simp
    show "\<forall>x < nat s. x < length ?ns0 \<longrightarrow> ns' ! x = ?ns0 ! x"
      using val jsb fs by auto
  qed
  have sp': "stack_pending ns' bs = Some Q"
    by (rule stack_pending_prefix [OF spq tk])
  have res: "resolved ns' Q"
    unfolding resolved_def
  proof (intro allI impI)
    fix x t
    assume x: "x < length ns'" and t: "target (ns' ! x) = Some t"
    then have x0: "x < length ?ns0" using l' lns by simp
    show "x \<in> Q \<or> (0 \<le> t \<and> t \<le> int (length ns'))"
    proof (cases "x \<in> P1")
      case True
      then have "x \<in> set js \<or> (l \<noteq> - 1 \<and> x = f)" unfolding P1 by (auto split: if_splits)
      then show ?thesis
      proof
        assume "x \<in> set js"
        with val x0 t show ?thesis using l' lns by (simp add: target_def)
      next
        assume a: "l \<noteq> - 1 \<and> x = f"
        with fl obtain e where "?ns0 ! f = NT_IF e (- 1)" by blast
        with val x0 a t show ?thesis using l' lns by (auto simp: target_def split: if_splits)
      qed
    next
      case False
      then have nj: "x \<notin> set js" and nf: "\<not> (l \<noteq> - 1 \<and> x = f)"
        unfolding P1 by (auto split: if_splits)
      have "ns' ! x = ?ns0 ! x"
        using val [rule_format, OF x0] nj nf by (simp only: if_False)
      with t r x0 have "x \<in> P \<or> (0 \<le> t \<and> t \<le> ?n)" unfolding resolved_def by auto
      with False P l' lns show ?thesis by auto
    qed
  qed
  have inv': "parser_inv (p\<lparr>blocks := rev bs, nodes := ns'\<rparr>)"
    using sp' res by (intro parser_invI [where P = Q]) simp_all
  have fl': "l \<noteq> - 1 \<longrightarrow> int f = l" using fl by blast
  have len: "length ns' = length ?ns0" using l' lns by simp
  show ?thesis
    by (intro exI [of _ ns] exI [of _ ns'] exI [of _ js] exI [of _ f] conjI
        set pj inv' s0 ch fl' len val)
qed


lemma if_continue_inv:
  assumes inv: "parser_inv p" and top: "rev (blocks p) = Block_IF s l c # bs" and l: "l \<noteq> - 1"
  shows "\<exists>ns2 e0. set_if_next (nodes p @ [NT_JUMP (- 1)]) l (int (length (nodes p @ [NT_JUMP (- 1)])))
        = Some ns2
     \<and> 0 \<le> l \<and> nat l < length (nodes p) \<and> nodes p ! nat l = NT_IF e0 (- 1)
     \<and> ns2 = (nodes p)[nat l := NT_IF e0 (int (length (nodes p)) + 1)] @ [NT_JUMP (- 1)]
     \<and> parser_inv (p\<lparr>blocks := rev bs @ [Block_IF s (int (length (nodes p)) + 1) (c + 1)],
                     nodes := ns2 @ [NT_IF e (- 1)]\<rparr>)
     \<and> parser_inv (p\<lparr>blocks := rev bs @ [Block_IF s (- 1) (c + 1)], nodes := ns2\<rparr>)"
proof -
  let ?ns0 = "nodes p"
  let ?n = "length ?ns0"
  from inv obtain P where sp: "stack_pending ?ns0 (rev (blocks p)) = Some P"
    and r: "resolved ?ns0 P" by (rule parser_invE)
  from sp obtain P1 Q where sk: "skeleton ?ns0 (Block_IF s l c) = Some P1"
    and spq: "stack_pending (take (nat s) ?ns0) bs = Some Q" and P: "P = P1 \<union> Q"
    unfolding top by (auto simp: block_start_def split: option.splits)
  from sk l obtain js f e0 where s0: "0 \<le> s" and ch: "chain_jumps ?ns0 (nat s) c = Some (js, f)"
    and f: "int f = l" "f < ?n" "?ns0 ! f = NT_IF e0 (- 1)" and P1: "P1 = insert f (set js)"
    unfolding skeleton_def by (auto split: if_splits option.splits node_t.splits)
  from chain_jumps_le [OF ch] have fs: "nat s \<le> f" and jsb: "\<forall>j \<in> set js. nat s < j \<and> j < f"
    by simp_all
  have nl: "nat l = f" "0 \<le> l" using f by auto
  define ns2 where "ns2 = ?ns0[f := NT_IF e0 (int ?n + 1)] @ [NT_JUMP (- 1)]"
  have l2: "length ns2 = Suc ?n" by (simp add: ns2_def)
  have set: "set_if_next (?ns0 @ [NT_JUMP (- 1)]) l (int (length (?ns0 @ [NT_JUMP (- 1)]))) = Some ns2"
    using f nl by (simp add: set_if_next_def ns2_def nth_append list_update_append add.commute)
  have ch2: "chain_jumps ns2 (nat s) c = Some (js, f)"
    unfolding ns2_def by (rule chain_jumps_append) (simp add: chain_jumps_update_ge [OF ch])
  have e: "nat (int ?n + 1) = Suc ?n" by linarith
  have "chain_jumps ns2 (nat s) (Suc c) = Some (js @ [nat (int ?n + 1) - 1], nat (int ?n + 1))"
  proof (rule chain_jumps_snoc [OF ch2])
    show "f < length ns2" using f l2 by simp
    show "ns2 ! f = NT_IF e0 (int ?n + 1)" using f by (simp add: ns2_def nth_append)
    show "int f + 1 < int ?n + 1" using f by simp
    show "int ?n + 1 \<le> int (length ns2)" using l2 by simp
    show "ns2 ! (nat (int ?n + 1) - 1) = NT_JUMP (- 1)" unfolding e by (simp add: ns2_def nth_append)
  qed
  then have ch3: "chain_jumps ns2 (nat s) (Suc c) = Some (js @ [?n], Suc ?n)" unfolding e by simp
  have tk2: "take (nat s) ns2 = take (nat s) ?ns0"
    using fs f by (simp add: ns2_def)
  have spq2: "stack_pending (take (nat s) ns2) bs = Some Q" unfolding tk2 by (rule spq)
  have res2: "resolved ns2 (set js \<union> {?n} \<union> Q)"
    unfolding resolved_def
  proof (intro allI impI)
    fix x t
    assume x: "x < length ns2" and t: "target (ns2 ! x) = Some t"
    show "x \<in> set js \<union> {?n} \<union> Q \<or> (0 \<le> t \<and> t \<le> int (length ns2))"
    proof (cases "x = ?n \<or> x = f")
      case True
      with t f l2 show ?thesis by (auto simp: ns2_def nth_append target_def)
    next
      case False
      with x l2 have x0: "x < ?n" by simp
      with False have "ns2 ! x = ?ns0 ! x" by (simp add: ns2_def nth_append)
      with t r x0 have "x \<in> P \<or> (0 \<le> t \<and> t \<le> int ?n)" unfolding resolved_def by auto
      with False P P1 l2 show ?thesis by auto
    qed
  qed
  \<comment> \<open>the \<^verbatim>\<open>else\<close> case\<close>
  have sk_else: "skeleton ns2 (Block_IF s (- 1) (c + 1)) = Some (set js \<union> {?n})"
    using s0 ch3 l2 by (simp add: skeleton_def)
  have inv_else: "parser_inv (p\<lparr>blocks := rev bs @ [Block_IF s (- 1) (c + 1)], nodes := ns2\<rparr>)"
    using sk_else spq2 res2
    by (intro parser_invI [where P = "set js \<union> {?n} \<union> Q"]) (simp_all add: block_start_def)
  \<comment> \<open>the \<^verbatim>\<open>elseif\<close> case\<close>
  let ?ns3 = "ns2 @ [NT_IF e (- 1)]"
  have ch4: "chain_jumps ?ns3 (nat s) (Suc c) = Some (js @ [?n], Suc ?n)"
    by (rule chain_jumps_append [OF ch3])
  have sk_elseif: "skeleton ?ns3 (Block_IF s (int ?n + 1) (c + 1))
      = Some (insert (Suc ?n) (set js \<union> {?n}))"
    using s0 ch4 l2 by (simp add: skeleton_def nth_append)
  have tk3: "take (nat s) ?ns3 = take (nat s) ?ns0"
    using fs f tk2 l2 by simp
  have spq3: "stack_pending (take (nat s) ?ns3) bs = Some Q" unfolding tk3 by (rule spq)
  have res3: "resolved ?ns3 (insert (Suc ?n) (set js \<union> {?n}) \<union> Q)"
    by (rule resolved_append [OF res2]) (auto simp: l2)
  have inv_elseif: "parser_inv (p\<lparr>blocks := rev bs @ [Block_IF s (int ?n + 1) (c + 1)],
                     nodes := ?ns3\<rparr>)"
    using sk_elseif spq3 res3
    by (intro parser_invI [where P = "insert (Suc ?n) (set js \<union> {?n}) \<union> Q"])
       (simp_all add: block_start_def)
  have f': "nat l < ?n" "?ns0 ! nat l = NT_IF e0 (- 1)" using f nl by simp_all
  have ns2': "ns2 = ?ns0[nat l := NT_IF e0 (int ?n + 1)] @ [NT_JUMP (- 1)]"
    unfolding ns2_def nl ..
  show ?thesis
    by (intro exI [of _ ns2] exI [of _ e0] conjI set nl(2) f' ns2' inv_elseif inv_else)
qed


lemma for_close_inv:
  assumes inv: "parser_inv p" and top: "rev (blocks p) = Block_FOR_NEXT fs # bs"
  shows "\<exists>ns2 l e. set_for_next_next (nodes p @ [NT_JUMP fs]) fs (int (length (nodes p @ [NT_JUMP fs])))
        = Some ns2
     \<and> 0 < fs \<and> nat fs < length (nodes p) \<and> nodes p ! nat fs = NT_FOR_NEXT l (- 1)
     \<and> nodes p ! (nat fs - 1) = NT_FOR_INIT e
     \<and> ns2 = (nodes p)[nat fs := NT_FOR_NEXT l (int (length (nodes p)) + 1)] @ [NT_JUMP fs]
     \<and> parser_inv (p\<lparr>blocks := rev bs, nodes := ns2\<rparr>)"
proof -
  let ?ns0 = "nodes p"
  let ?n = "length ?ns0"
  from inv obtain P where sp: "stack_pending ?ns0 (rev (blocks p)) = Some P"
    and r: "resolved ?ns0 P" by (rule parser_invE)
  from sp obtain P1 Q where sk: "skeleton ?ns0 (Block_FOR_NEXT fs) = Some P1"
    and spq: "stack_pending (take (nat fs) ?ns0) bs = Some Q" and P: "P = P1 \<union> Q"
    unfolding top by (auto simp: block_start_def split: option.splits)
  from sk obtain l e where fs: "0 < fs" "fs < int ?n" and nx: "?ns0 ! nat fs = NT_FOR_NEXT l (- 1)"
    and ini: "?ns0 ! (nat fs - 1) = NT_FOR_INIT e" and P1: "P1 = {nat fs}"
    unfolding skeleton_def by (auto split: if_splits node_t.splits)
  have f: "nat fs < ?n" using fs by simp
  define ns2 where "ns2 = ?ns0[nat fs := NT_FOR_NEXT l (int ?n + 1)] @ [NT_JUMP fs]"
  have l2: "length ns2 = Suc ?n" by (simp add: ns2_def)
  have set: "set_for_next_next (?ns0 @ [NT_JUMP fs]) fs (int (length (?ns0 @ [NT_JUMP fs]))) = Some ns2"
    using fs nx f
    by (simp add: set_for_next_next_def ns2_def nth_append list_update_append add.commute)
  have tk2: "take (nat fs) ns2 = take (nat fs) ?ns0"
    using f by (simp add: ns2_def)
  have spq2: "stack_pending ns2 bs = Some Q"
    by (rule stack_pending_prefix [OF spq tk2])
  have res2: "resolved ns2 Q"
    unfolding resolved_def
  proof (intro allI impI)
    fix x t
    assume x: "x < length ns2" and t: "target (ns2 ! x) = Some t"
    show "x \<in> Q \<or> (0 \<le> t \<and> t \<le> int (length ns2))"
    proof (cases "x = ?n \<or> x = nat fs")
      case True
      with t f fs l2 show ?thesis by (auto simp: ns2_def nth_append target_def)
    next
      case False
      with x l2 have x0: "x < ?n" by simp
      with False have "ns2 ! x = ?ns0 ! x" by (simp add: ns2_def nth_append)
      with t r x0 have "x \<in> P \<or> (0 \<le> t \<and> t \<le> int ?n)" unfolding resolved_def by auto
      with False P P1 l2 show ?thesis by auto
    qed
  qed
  have inv2: "parser_inv (p\<lparr>blocks := rev bs, nodes := ns2\<rparr>)"
    using spq2 res2 by (intro parser_invI [where P = Q]) simp_all
  show ?thesis
    by (intro exI [of _ ns2] exI [of _ l] exI [of _ e] conjI set fs(1) f nx ini ns2_def inv2)
qed

lemma template_parse_if_inv:
  assumes inv: "parser_inv p" and ok: "template_parse_if loadbuffer element attrs p = Inr p'"
  shows "parser_inv p'"
proof -
  define first where "first =
        (if element AND TEMPLATE_EOPEN \<noteq> 0 then
           (case attrs ''cond'' of
              None \<Rightarrow> Inl (Error (''missing attribute '' @ quoted ''cond''))
            | Some cond \<Rightarrow>
                (case template_parse_expression loadbuffer cond of
                   Inl f \<Rightarrow> Inl f
                 | Inr e \<Rightarrow>
                     Inr (p\<lparr>blocks := blocks p @
                               [Block_IF (int (length (nodes p))) (int (length (nodes p))) 0],
                            nodes := nodes p @ [NT_IF e (- 1)]\<rparr>)))
         else Inr p)"
  from ok obtain p1 where p1: "first = Inr p1"
    unfolding template_parse_if_def first_def [symmetric] by (cases first) simp_all
  have inv1: "parser_inv p1"
    using p1 inv inv_if_open [OF inv] unfolding first_def
    by (auto split: if_splits option.splits sum.splits)
  show ?thesis
  proof (cases "element AND TEMPLATE_ECLOSE \<noteq> 0")
    case False
    with ok p1 have "p' = p1"
      unfolding template_parse_if_def first_def [symmetric] by simp
    with inv1 show ?thesis by simp
  next
    case True
    with ok p1 obtain s l c bs where top: "rev (blocks p1) = Block_IF s l c # bs"
      unfolding template_parse_if_def first_def [symmetric]
      by (simp split: list.splits block_t.splits)
    from if_close_inv [OF inv1 top] obtain ns ns' where
      a: "(if l \<noteq> - 1 then set_if_next (nodes p1) l (int (length (nodes p1))) else Some (nodes p1)) = Some ns"
      and b: "patch_jumps ns s c = Inr ns'"
      and c: "parser_inv (p1\<lparr>blocks := rev bs, nodes := ns'\<rparr>)" by blast
    from ok p1 True top a b have "p' = p1\<lparr>blocks := rev bs, nodes := ns'\<rparr>"
      unfolding template_parse_if_def first_def [symmetric] by simp
    with c show ?thesis by simp
  qed
qed

lemma template_parse_elseif_inv:
  assumes inv: "parser_inv p" and ok: "template_parse_elseif loadbuffer element attrs p = Inr p'"
  shows "parser_inv p'"
proof (cases "element AND TEMPLATE_EOPEN \<noteq> 0")
  case False
  with ok have "p' = p" unfolding template_parse_elseif_def by simp
  with inv show ?thesis by simp
next
  case True
  with ok obtain s l c bs where top: "rev (blocks p) = Block_IF s l c # bs" and l: "l \<noteq> - 1"
    unfolding template_parse_elseif_def
    by (simp split: list.splits block_t.splits if_splits)
  from ok True top l obtain cond e where cond: "attrs ''cond'' = Some cond"
    and e: "template_parse_expression loadbuffer cond = Inr e"
    unfolding template_parse_elseif_def
    by (simp add: Let_def split: option.splits sum.splits)
  from if_continue_inv [OF inv top l, of e] obtain ns2 where
    a: "set_if_next (nodes p @ [NT_JUMP (- 1)]) l (int (length (nodes p @ [NT_JUMP (- 1)]))) = Some ns2"
    and b: "parser_inv (p\<lparr>blocks := rev bs @ [Block_IF s (int (length (nodes p)) + 1) (c + 1)],
                     nodes := ns2 @ [NT_IF e (- 1)]\<rparr>)" by blast
  from ok True top l cond e a
  have "p' = p\<lparr>blocks := rev bs @ [Block_IF s (int (length (nodes p)) + 1) (c + 1)],
                     nodes := ns2 @ [NT_IF e (- 1)]\<rparr>"
    unfolding template_parse_elseif_def by (simp add: Let_def add.commute)
  with b show ?thesis by simp
qed

lemma template_parse_else_inv:
  assumes inv: "parser_inv p" and ok: "template_parse_else element p = Inr p'"
  shows "parser_inv p'"
proof (cases "element AND TEMPLATE_EOPEN \<noteq> 0")
  case False
  with ok have "p' = p" unfolding template_parse_else_def by simp
  with inv show ?thesis by simp
next
  case True
  with ok obtain s l c bs where top: "rev (blocks p) = Block_IF s l c # bs" and l: "l \<noteq> - 1"
    unfolding template_parse_else_def
    by (simp split: list.splits block_t.splits if_splits)
  from if_continue_inv [OF inv top l] obtain ns2 where
    a: "set_if_next (nodes p @ [NT_JUMP (- 1)]) l (int (length (nodes p @ [NT_JUMP (- 1)]))) = Some ns2"
    and b: "parser_inv (p\<lparr>blocks := rev bs @ [Block_IF s (- 1) (c + 1)], nodes := ns2\<rparr>)" by blast
  from ok True top l a
  have "p' = p\<lparr>blocks := rev bs @ [Block_IF s (- 1) (c + 1)], nodes := ns2\<rparr>"
    unfolding template_parse_else_def by (simp add: Let_def)
  with b show ?thesis by simp
qed

lemma template_parse_for_inv:
  assumes inv: "parser_inv p" and ok: "template_parse_for loadbuffer element attrs p = Inr p'"
  shows "parser_inv p'"
proof -
  define first where "first =
        (if element AND TEMPLATE_EOPEN \<noteq> 0 then
           (case attrs ''in'' of
              None \<Rightarrow> Inl (Error (''missing attribute '' @ quoted ''in''))
            | Some src \<Rightarrow>
                (case template_parse_expression loadbuffer src of
                   Inl f \<Rightarrow> Inl f
                 | Inr e \<Rightarrow>
                     (case attrs ''names'' of
                        None \<Rightarrow> Inl (Error (''missing attribute '' @ quoted ''names''))
                      | Some names \<Rightarrow>
                          (case template_parse_names names of
                             Inl f \<Rightarrow> Inl f
                           | Inr l \<Rightarrow>
                               Inr (p\<lparr>blocks := blocks p @
                                         [Block_FOR_NEXT (int (length (nodes p)) + 1)],
                                      nodes := nodes p @
                                         [NT_FOR_INIT e, NT_FOR_NEXT l (- 1)]\<rparr>)))))
         else Inr p)"
  from ok obtain p1 where p1: "first = Inr p1"
    unfolding template_parse_for_def first_def [symmetric] by (cases first) simp_all
  have inv1: "parser_inv p1"
    using p1 inv inv_for_open [OF inv] unfolding first_def
    by (auto split: if_splits option.splits sum.splits)
  show ?thesis
  proof (cases "element AND TEMPLATE_ECLOSE \<noteq> 0")
    case False
    with ok p1 have "p' = p1"
      unfolding template_parse_for_def first_def [symmetric] by simp
    with inv1 show ?thesis by simp
  next
    case True
    with ok p1 obtain fs bs where top: "rev (blocks p1) = Block_FOR_NEXT fs # bs"
      unfolding template_parse_for_def first_def [symmetric]
      by (simp split: list.splits block_t.splits)
    from for_close_inv [OF inv1 top] obtain ns2 where
      a: "set_for_next_next (nodes p1 @ [NT_JUMP fs]) fs (int (length (nodes p1 @ [NT_JUMP fs]))) = Some ns2"
      and c: "parser_inv (p1\<lparr>blocks := rev bs, nodes := ns2\<rparr>)" by blast
    from ok p1 True top a have "p' = p1\<lparr>blocks := rev bs, nodes := ns2\<rparr>"
      unfolding template_parse_for_def first_def [symmetric] by (simp add: Let_def)
    with c show ?thesis by simp
  qed
qed

lemma template_parse_set_inv:
  assumes inv: "parser_inv p" and ok: "template_parse_set loadbuffer element attrs p = Inr p'"
  shows "parser_inv p'"
  using ok inv inv_append_plain [OF inv, of "NT_SET l e" for l e]
  unfolding template_parse_set_def
  by (auto simp: target_def split: if_splits option.splits sum.splits)

lemma template_parse_include_inv:
  assumes inv: "parser_inv p" and ok: "template_parse_include loadbuffer element attrs p = Inr p'"
  shows "parser_inv p'"
  using ok inv inv_append_plain [OF inv, of "NT_INCLUDE e" for e]
  unfolding template_parse_include_def
  by (auto simp: target_def split: if_splits option.splits sum.splits)

lemma template_parse_sub_inv:
  assumes inv: "parser_inv p" and ok: "template_parse_sub loadbuffer flags expression p = Inr p'"
  shows "parser_inv p'"
  using ok inv inv_append_plain [OF inv, of "NT_SUB e f" for e f]
  unfolding template_parse_sub_def
  by (auto simp: target_def split: if_splits option.splits sum.splits)

lemma template_parse_raw_inv:
  assumes inv: "parser_inv p"
  shows "parser_inv (template_parse_raw raw p)"
  using inv inv_append_plain [OF inv, of "NT_RAW raw"]
  unfolding template_parse_raw_def by (simp add: target_def)

lemma template_parse_element_inv:
  assumes inv: "parser_inv p" and ok: "template_parse_element loadbuffer name element attrs p = Inr p'"
  shows "parser_inv p'"
  using ok template_parse_if_inv [OF inv] template_parse_for_inv [OF inv]
    template_parse_set_inv [OF inv] template_parse_else_inv [OF inv]
    template_parse_elseif_inv [OF inv] template_parse_include_inv [OF inv]
  unfolding template_parse_element_def by (simp split: if_splits)

lemma parse_items_inv:
  "parser_inv p \<Longrightarrow> parse_items loadbuffer is p = Inr p' \<Longrightarrow> parser_inv p'"
proof (induction "is" arbitrary: p)
  case Nil
  then show ?case by simp
next
  case (Cons i "is")
  show ?case
  proof (cases i)
    case (Element name element attrs)
    with Cons.prems(2) obtain p1 where
      a: "template_parse_element loadbuffer name element attrs p = Inr p1"
      and b: "parse_items loadbuffer is p1 = Inr p'" by (simp split: sum.splits)
    from Cons.IH [OF template_parse_element_inv [OF Cons.prems(1) a] b] show ?thesis .
  next
    case (Sub flags expression)
    with Cons.prems(2) obtain p1 where
      a: "template_parse_sub loadbuffer flags expression p = Inr p1"
      and b: "parse_items loadbuffer is p1 = Inr p'" by (simp split: sum.splits)
    from Cons.IH [OF template_parse_sub_inv [OF Cons.prems(1) a] b] show ?thesis .
  next
    case (Raw raw)
    with Cons.prems(2) have b: "parse_items loadbuffer is (template_parse_raw raw p) = Inr p'"
      by simp
    from Cons.IH [OF template_parse_raw_inv [OF Cons.prems(1)] b] show ?thesis .
  qed
qed

lemma parser_inv_init: "parser_inv \<lparr>nodes = [], blocks = []\<rparr>"
  unfolding parser_inv_def resolved_def by simp

lemma template_parse_final_inv:
  assumes "template_parse loadbuffer is = Inr ns"
  shows "resolved ns {}"
proof -
  from assms obtain p where p: "parse_items loadbuffer is \<lparr>nodes = [], blocks = []\<rparr> = Inr p"
    and b: "blocks p = []" and n: "ns = nodes p"
    unfolding template_parse_def by (auto split: sum.splits if_splits)
  from parse_items_inv [OF parser_inv_init p] have "parser_inv p" .
  with b n show ?thesis unfolding parser_inv_def by simp
qed

lemma parse_if_items:
  "template_parse const_load if_items = Inr [NT_IF 0 2, NT_RAW ''a'']"
  by (simp add: template_parse_def if_items_def template_parse_element_def template_parse_if_def
      template_parse_expression_def const_load_def cond_attrs_def no_attrs_def
      TEMPLATE_EOPEN_def TEMPLATE_ECLOSE_def template_parse_raw_def set_if_next_def)

lemma parse_if_else_items:
  "template_parse const_load if_else_items = Inr [NT_IF 0 3, NT_RAW ''a'', NT_JUMP 4, NT_RAW ''b'']"
  by (simp add: template_parse_def if_else_items_def template_parse_element_def
      template_parse_if_def template_parse_else_def
      template_parse_expression_def const_load_def cond_attrs_def no_attrs_def
      TEMPLATE_EOPEN_def TEMPLATE_ECLOSE_def template_parse_raw_def set_if_next_def
      get_if_next_def set_jump_next_def Let_def)

text \<open>
  C5, as stated, fails: a target need not be the index of a node. The template
  \<^verbatim>\<open><l:if cond="x">a</l:if>\<close> compiles to two nodes, and the \<^verbatim>\<open>if_next\<close> of its \<^verbatim>\<open>NT_IF\<close>
  node is 2, the number of nodes, where the list has no node (the interpreter's loop
  \<^verbatim>\<open>while (i < template->nodes->count)\<close> ends there).
\<close>

theorem jump_target_counterexample:
  "template_parse const_load if_items = Inr [NT_IF 0 2, NT_RAW ''a'']
   \<and> target ([NT_IF (0 :: nat) 2, NT_RAW ''a''] ! 0) = Some 2
   \<and> \<not> (2 :: int) < int (length [NT_IF (0 :: nat) 2, NT_RAW ''a''])"
proof -
  have t: "target ([NT_IF (0 :: nat) 2, NT_RAW ''a''] ! 0) = Some 2" by (simp add: target_def)
  have l: "\<not> (2 :: int) < int (length [NT_IF (0 :: nat) 2, NT_RAW ''a''])" by simp
  show ?thesis by (rule conjI [OF parse_if_items conjI [OF t l]])
qed

text \<open>
  C5, amended: in the node list of every template that compiles, every \<^verbatim>\<open>jump_next\<close>,
  \<^verbatim>\<open>if_next\<close> and \<^verbatim>\<open>for_next_next\<close> lies between 0 and the number of nodes, both
  included; so none is the \<open>-1\<close> the node was created with.
\<close>

theorem jump_targets_resolved:
  assumes "template_parse loadbuffer is = Inr ns" and "x < length ns"
    and "target (ns ! x) = Some t"
  shows "0 \<le> t \<and> t \<le> int (length ns) \<and> t \<noteq> - 1"
proof -
  from template_parse_final_inv [OF assms(1)] assms(2,3)
  have "0 \<le> t \<and> t \<le> int (length ns)" unfolding resolved_def by simp
  then show ?thesis by simp
qed

theorem jump_targets_resolved_witness:
  "template_parse const_load if_else_items = Inr [NT_IF 0 3, NT_RAW ''a'', NT_JUMP 4, NT_RAW ''b'']
   \<and> target ([NT_IF (0 :: nat) 3, NT_RAW ''a'', NT_JUMP 4, NT_RAW ''b''] ! 2) = Some 4
   \<and> (0 :: int) \<le> 4
   \<and> (4 :: int) \<le> int (length [NT_IF (0 :: nat) 3, NT_RAW ''a'', NT_JUMP 4, NT_RAW ''b''])
   \<and> (4 :: int) \<noteq> - 1"
proof -
  have t: "target ([NT_IF (0 :: nat) 3, NT_RAW ''a'', NT_JUMP 4, NT_RAW ''b''] ! 2) = Some 4"
    by (simp add: target_def)
  have l: "2 < length [NT_IF (0 :: nat) 3, NT_RAW ''a'', NT_JUMP 4, NT_RAW ''b'']" by simp
  note T = jump_targets_resolved [OF parse_if_else_items l t]
  show ?thesis
    by (rule conjI [OF parse_if_else_items conjI [OF t T]])
qed

subsection \<open>The structure of a compiled template\<close>

lemma length_emit:
  "length (emit (p :: 'e prog) a) = psize p"
  and length_emit_chain: "length (emit_chain (c :: 'e chain) a m) = csize c"
  by (induction p a and c a m rule: emit_emit_chain.induct) simp_all

lemma psize_seq: "psize (seq p q) = psize p + psize q"
  by (induction p q rule: seq.induct) simp_all

lemma emit_seq: "emit (seq p q) a = emit p a @ emit q (a + psize p)"
  by (induction p q arbitrary: a rule: seq.induct) (simp_all add: psize_seq add.assoc add.commute add.left_commute)

lemma length_emit_branches: "length (emit_branches brs a j) = bsize brs"
  by (induction brs a j rule: emit_branches.induct) (simp_all add: length_emit)

lemma bsize_snoc: "bsize (brs @ [(e, b)]) = bsize brs + psize b + 2"
  by (induction brs rule: bsize.induct) simp_all

lemma emit_branches_snoc:
  "emit_branches (brs @ [(e, b)]) a j =
     emit_branches brs a j @ NT_IF e (int (a + bsize brs + psize b + 2))
        # emit b (a + bsize brs + 1) @ [NT_JUMP j]"
  by (induction brs a j rule: emit_branches.induct) (simp_all add: add.assoc add.commute add.left_commute)



lemma length_emit_frame: "length (emit_frame f a) = fsize f"
  by (cases f) (auto simp: length_emit length_emit_branches split: option.splits)

lemma length_emit_open: "length (emit_open fs a) = osize fs"
  by (induction fs a rule: emit_open.induct) (simp_all add: length_emit_frame)

lemma osize_snoc: "osize (fs @ [f]) = osize fs + fsize f"
  by (induction fs) simp_all

lemma emit_open_snoc: "emit_open (fs @ [f]) a = emit_open fs a @ emit_frame f (a + osize fs)"
  by (induction fs a rule: emit_open.induct) (simp_all add: add.assoc add.commute add.left_commute)

lemma blocks_of_snoc: "blocks_of (fs @ [f]) a = blocks_of fs a @ [block_of f (a + osize fs)]"
  by (induction fs a rule: blocks_of.induct) (simp_all add: add.assoc add.commute add.left_commute)








lemmas sz = length_emit length_emit_chain length_emit_branches length_emit_open length_emit_frame
  osize_snoc emit_open_snoc blocks_of_snoc bsize_snoc emit_branches_snoc psize_seq emit_seq























subsection \<open>Rendering loops and conditions\<close>






















inductive_cases exec_DoneE: "exec L inc Done s s'"
inductive_cases exec_PlainE: "exec L inc (Plain n r) s s'"
inductive_cases exec_ForE: "exec L inc (For e names b r) s s'"
inductive_cases exec_CondE: "exec L inc (Cond c r) s s'"
inductive_cases for_loopE: "for_loop L inc names b K s s'"
inductive_cases chain_LastE: "chain_run L inc (Last e b) s s'"
inductive_cases chain_LastElseE: "chain_run L inc (LastElse e b eb) s s'"
inductive_cases chain_MoreE: "chain_run L inc (More e b c) s s'"

lemma exec_deterministic:
  "exec L inc p s s' \<Longrightarrow> (\<And>s''. exec L inc p s s'' \<Longrightarrow> s'' = s')"
  and for_loop_deterministic:
  "for_loop L inc names b K s s'
     \<Longrightarrow> (\<And>K' s''. for_loop L inc names b K' s s'' \<Longrightarrow> K' = K \<and> s'' = s')"
  and chain_run_deterministic:
  "chain_run L inc c s s' \<Longrightarrow> (\<And>s''. chain_run L inc c s s'' \<Longrightarrow> s'' = s')"
proof (induction rule: exec_for_loop_chain_run.inducts)
  case (exec_Done s)
  then show ?case by (auto elim: exec_DoneE)
next
  case (exec_Plain n s s1 r s')
  from exec_Plain.prems show ?case
  proof (rule exec_PlainE)
    fix t1
    assume a: "render_node L inc (node_of n) s = Some (Inr t1)" and b: "exec L inc r t1 s''"
    have rn: "render_node L inc (node_of n) s = Some (Inr s1)" by (rule exec_Plain.IH)
    from a rn have "t1 = s1" by simp
    with b have "exec L inc r s1 s''" by simp
    then show "s'' = s'" by (rule exec_Plain.IH)
  qed
next
  case (exec_For e s vs w names b K s1 r s')
  from exec_For.prems show ?case
  proof (rule exec_ForE)
    fix vs' w' K' t1
    assume a: "template_eval L e 3 (world s) = Inr (vs', w')"
      and b: "for_loop L inc names b K'
                (s\<lparr>ip := Suc (ip s), stack := rev vs' @ stack s, world := w'\<rparr>) t1"
      and c: "exec L inc r t1 s''"
    have ev: "template_eval L e 3 (world s) = Inr (vs, w)" by (rule exec_For.IH)
    from a ev have "vs' = vs" "w' = w" by simp_all
    with b have "for_loop L inc names b K'
        (s\<lparr>ip := ip s + 1, stack := rev vs @ stack s, world := w\<rparr>) t1" by simp
    then have "K' = K \<and> t1 = s1" by (rule exec_For.IH)
    with c have "exec L inc r s1 s''" by simp
    then show "s'' = s'" by (rule exec_For.IH)
  qed
next
  case (exec_Cond c s s1 r s')
  from exec_Cond.prems show ?case
  proof (rule exec_CondE)
    fix t1
    assume a: "chain_run L inc c s t1" and b: "exec L inc r t1 s''"
    from a have "t1 = s1" by (rule exec_Cond.IH)
    with b have "exec L inc r s1 s''" by simp
    then show "s'' = s'" by (rule exec_Cond.IH)
  qed
next
  case (for_nil s control subject iterator rest names rs w b)
  note h = for_nil.hyps for_nil.IH
  from for_nil.prems show ?case
  proof (cases rule: for_loop.cases)
    case for_nil
    with h show ?thesis by simp
  next
    case for_item
    with h show ?thesis by simp
  qed
next
  case (for_item s control subject iterator rest names rs w vs b s1 K s')
  note h = for_item.hyps
  have st: "stack s = control # subject # iterator # rest"
    and call: "lua_call L iterator [subject, control] (world s) = Inr (rs, w)"
    and vs: "vs = adjust (length names) rs" and nn: "\<not> lua_isnil (hd vs)"
    by (rule for_item.hyps for_item.IH)+
  note IH = for_item.IH
  from for_item.prems show ?case
  proof (cases rule: for_loop.cases)
    case for_nil
    with st call vs nn show ?thesis by simp
  next
    case (for_item control' subject' iterator' rest' rs' w' vs' t1 K0)
    with st call vs have eq: "control' = control" "subject' = subject" "iterator' = iterator"
      "rest' = rest" "rs' = rs" "w' = w" "vs' = vs" by simp_all
    from for_item(7) have "exec L inc b
           (s\<lparr>ip := ip s + 1, stack := hd vs # subject # iterator # rest,
              world := bind_names L names vs w\<rparr>) t1" unfolding eq .
    then have t1: "t1 = s1" by (rule IH)
    from for_item(8) have "for_loop L inc names b K0 (s1\<lparr>ip := ip s\<rparr>) s''" unfolding t1 .
    then have "K0 = K \<and> s'' = s'" by (rule IH)
    with for_item(1) show ?thesis by simp
  qed
next
  case (chain_hit c s vs w s1)
  have ev: "template_eval L (chain_cond c) 1 (world s) = Inr (vs, w)"
    and tr: "lua_toboolean (hd vs)" by (rule chain_hit.hyps chain_hit.IH)+
  note IH = chain_hit.IH
  from chain_hit.prems show ?case
  proof (cases rule: chain_run.cases)
    case (chain_hit vs' w' t1)
    with ev have eq: "vs' = vs" "w' = w" by simp_all
    from chain_hit(4) have "exec L inc (chain_body c) (s\<lparr>ip := ip s + 1, world := w\<rparr>) t1"
      unfolding eq .
    then have "t1 = s1" by (rule IH)
    with chain_hit(1) show ?thesis by simp
  next
    case chain_none
    with ev tr show ?thesis by simp
  next
    case chain_else
    with ev tr show ?thesis by simp
  next
    case chain_next
    with ev tr show ?thesis by simp
  qed
next
  case (chain_none e s vs w b)
  have ev: "template_eval L e 1 (world s) = Inr (vs, w)"
    and fl: "\<not> lua_toboolean (hd vs)" by (rule chain_none.hyps chain_none.IH)+
  from chain_none.prems show ?case
  proof (cases rule: chain_run.cases)
    case chain_hit
    with ev fl show ?thesis by simp
  next
    case chain_none
    with ev show ?thesis by simp
  qed
next
  case (chain_else e s vs w eb b s1)
  have ev: "template_eval L e 1 (world s) = Inr (vs, w)"
    and fl: "\<not> lua_toboolean (hd vs)" by (rule chain_else.hyps chain_else.IH)+
  note IH = chain_else.IH
  from chain_else.prems show ?case
  proof (cases rule: chain_run.cases)
    case chain_hit
    with ev fl show ?thesis by simp
  next
    case chain_else
    with ev have "exec L inc eb (s\<lparr>ip := ip s + psize b + 2, world := w\<rparr>) s''" by simp
    then show ?thesis by (rule IH)
  qed
next
  case (chain_next e s vs w c b s1)
  have ev: "template_eval L e 1 (world s) = Inr (vs, w)"
    and fl: "\<not> lua_toboolean (hd vs)" by (rule chain_next.hyps chain_next.IH)+
  note IH = chain_next.IH
  from chain_next.prems show ?case
  proof (cases rule: chain_run.cases)
    case chain_hit
    with ev fl show ?thesis by simp
  next
    case chain_next
    with ev have "chain_run L inc c (s\<lparr>ip := ip s + psize b + 2, world := w\<rparr>) s''" by simp
    then show ?thesis by (rule IH)
  qed
qed














end
